theory Spec2Isabelle
  imports Complex_Main "HOL-Library.Multiset" "HOL-Library.Sublist" "HOL-Library.Log_Nat"
begin

section \<open>Comment moderation and trust pipeline of Orin\<close>

text \<open>
  A shallow embedding of the moderation service
  (\<^verbatim>\<open>functions/api/services/moderation.ts\<close>), the trust level calculator
  (\<^verbatim>\<open>calculateTrustLevel\<close>) and the comment tree service
  (\<^verbatim>\<open>functions/api/services/comment-tree.ts\<close>).
\<close>

subsection \<open>Numbers\<close>

text \<open>
  A TypeScript \<^verbatim>\<open>number\<close> that carries a score is an IEEE double: a finite value,
  one of the two infinities, or NaN. A finite double is modelled by the rational it is
  equal to. Every comparison with NaN is false, so \<^verbatim>\<open>a >= b\<close> is not the negation of
  \<^verbatim>\<open>a < b\<close>. Counters (\<^verbatim>\<open>ruleScore\<close>, \<^verbatim>\<open>approvedCount\<close>, ids) are integers.
\<close>

datatype number = NaN | NegInfinity | Finite rat | Infinity

fun num_le :: "number \<Rightarrow> number \<Rightarrow> bool" where
  "num_le NaN b = False"
| "num_le a NaN = False"
| "num_le NegInfinity b = True"
| "num_le a Infinity = True"
| "num_le (Finite x) (Finite y) = (x \<le> y)"
| "num_le a b = False"

definition num_ge :: "number \<Rightarrow> number \<Rightarrow> bool" where
  "num_ge a b = num_le b a"

text \<open>
  Arithmetic on doubles rounds the exact result to the nearest double, ties to the even
  significand; a decimal literal denotes the double nearest to it. \<open>binaryExponent x\<close>
  is the integer \<open>e\<close> with \<open>2^e \<le> x < 2^(e+1)\<close> for a positive \<open>x\<close>; a double has 53
  significant bits, so its unit in the last place is \<open>2^(e - 52)\<close>, and \<open>2^(-1074)\<close> for
  the subnormal numbers below \<open>2^(-1022)\<close>. Overflow to infinity is not part of
  \<^verbatim>\<open>roundDouble\<close>: the sums and quotients of this module stay below 2, and its
  only product is capped by \<^verbatim>\<open>Math.min\<close> with 0.3 at once, which gives 0.3 either way.
\<close>

definition pow2 :: "int \<Rightarrow> rat" where
  "pow2 e = (if e \<ge> 0 then 2 ^ nat e else 1 / 2 ^ nat (- e))"

definition binaryExponent :: "rat \<Rightarrow> int" where
  "binaryExponent x =
     (let (p, q) = quotient_of x; e = bitlen p - bitlen q
      in if pow2 e \<le> x then e else e - 1)"

definition roundHalfEven :: "rat \<Rightarrow> int" where
  "roundHalfEven m =
     (let f = \<lfloor>m\<rfloor>; d = m - of_int f
      in if d < 1 / 2 then f
         else if d > 1 / 2 then f + 1
         else if even f then f else f + 1)"

definition roundDouble :: "rat \<Rightarrow> rat" where
  "roundDouble x =
     (if x = 0 then 0
      else (let e = max (binaryExponent \<bar>x\<bar>) (- 1022); ulp = pow2 (e - 52)
            in of_int (roundHalfEven (x / ulp)) * ulp))"

definition double_add :: "rat \<Rightarrow> rat \<Rightarrow> rat" where
  "double_add a b = roundDouble (a + b)"

definition double_mul :: "rat \<Rightarrow> rat \<Rightarrow> rat" where
  "double_mul a b = roundDouble (a * b)"

definition double_div :: "rat \<Rightarrow> rat \<Rightarrow> rat" where
  "double_div a b = roundDouble (a / b)"

subsection \<open>Shared types\<close>

type_synonym TrustLevel = nat

datatype CommentStatus = Pending | Approved | Rejected | Deleted

datatype ModerationSource = Rules | Ai | Manual | Fallback

record RuleCheckResult =
  ruleScore :: int
  ruleFlags :: "string list"
  hardRuleTriggered :: bool

record AICheckResult =
  aiScore :: number
  aiLabel :: string
  success :: bool
  error :: "string option"

text \<open>
  \<^verbatim>\<open>ModerationResult\<close>: the fields carried through from the two inputs are prefixed
  with \<open>res_\<close>, since a record field is a constant of the theory. Its status is one of
  approved, rejected and pending; \<^const>\<open>Deleted\<close> is never produced.
\<close>

record ModerationResult =
  status :: CommentStatus
  source :: ModerationSource
  res_aiScore :: "number option"
  res_aiLabel :: "string option"
  res_ruleScore :: int
  res_ruleFlags :: "string list"

subsection \<open>The decision matrix\<close>

text \<open>
  The thresholds are compared with doubles. 0.15 and 0.65 are written as the rationals
  15/100 and 65/100: a double is at most 15/100 exactly when it is at most the double
  that the literal 0.15 denotes, and at least 65/100 exactly when it is at least the
  double that 0.65 denotes (\<open>double_le_15_100\<close> and \<open>double_ge_65_100\<close> below). 0.85 is
  the double that the literal denotes: that double lies below 85/100 and reaches the
  threshold.
\<close>

definition AUTO_APPROVE_AI_MAX :: number where
  "AUTO_APPROVE_AI_MAX = Finite (15 / 100)"

definition AUTO_REJECT_AI_MIN :: number where
  "AUTO_REJECT_AI_MIN = Finite (roundDouble (85 / 100))"

definition COMBINED_REJECT_AI_MIN :: number where
  "COMBINED_REJECT_AI_MIN = Finite (65 / 100)"

definition COMBINED_REJECT_RULE_MIN :: int where
  "COMBINED_REJECT_RULE_MIN = 3"

definition AUTO_APPROVE_TRUST_MIN :: TrustLevel where
  "AUTO_APPROVE_TRUST_MIN = 2"

definition baseResult :: "RuleCheckResult \<Rightarrow> 'a AICheckResult_scheme \<Rightarrow> ModerationResult" where
  "baseResult ruleResult aiResult =
     \<lparr> status = Pending, source = Ai,
       res_aiScore = (if success aiResult then Some (aiScore aiResult) else None),
       res_aiLabel = (if success aiResult then Some (aiLabel aiResult) else None),
       res_ruleScore = ruleScore ruleResult,
       res_ruleFlags = ruleFlags ruleResult \<rparr>"

text \<open>
  \<^verbatim>\<open>makeDecision\<close>: six sequential returns. The classifier result may be any
  record that extends \<^verbatim>\<open>AICheckResult\<close>, as TypeScript's structural typing allows. Every branch overwrites both
  \<open>status\<close> and \<open>source\<close> of \<^const>\<open>baseResult\<close>, whose own values for these two
  fields are therefore never seen.
\<close>

definition makeDecision ::
  "RuleCheckResult \<Rightarrow> 'a AICheckResult_scheme \<Rightarrow> TrustLevel \<Rightarrow> ModerationResult" where
  "makeDecision ruleResult aiResult trustLevel =
     (if hardRuleTriggered ruleResult then
        (baseResult ruleResult aiResult)\<lparr>status := Rejected, source := Rules\<rparr>
      else if \<not> success aiResult then
        (baseResult ruleResult aiResult)\<lparr>status := Pending, source := Fallback\<rparr>
      else if trustLevel \<ge> AUTO_APPROVE_TRUST_MIN \<and> ruleScore ruleResult = 0
              \<and> num_le (aiScore aiResult) AUTO_APPROVE_AI_MAX then
        (baseResult ruleResult aiResult)\<lparr>status := Approved, source := Ai\<rparr>
      else if num_ge (aiScore aiResult) AUTO_REJECT_AI_MIN then
        (baseResult ruleResult aiResult)\<lparr>status := Rejected, source := Ai\<rparr>
      else if ruleScore ruleResult \<ge> COMBINED_REJECT_RULE_MIN
              \<and> num_ge (aiScore aiResult) COMBINED_REJECT_AI_MIN then
        (baseResult ruleResult aiResult)\<lparr>status := Rejected, source := Ai\<rparr>
      else
        (baseResult ruleResult aiResult)\<lparr>status := Pending, source := Ai\<rparr>)"

subsection \<open>Trust level\<close>

record UserCommentStats =
  approvedCount :: int
  hasRecentRejections :: bool
  isManuallyTrusted :: bool

definition calculateTrustLevel :: "UserCommentStats \<Rightarrow> TrustLevel" where
  "calculateTrustLevel stats =
     (if isManuallyTrusted stats then 3
      else if approvedCount stats = 0 then 0
      else if approvedCount stats = 1 then 1
      else if approvedCount stats \<ge> 2 \<and> \<not> hasRecentRejections stats then 2
      else 1)"

definition canAutoApprove :: "TrustLevel \<Rightarrow> bool" where
  "canAutoApprove trustLevel = (trustLevel \<ge> 2)"

section \<open>Rule detector set\<close>

subsection \<open>Strings and the runtime\<close>

text \<open>
  A JavaScript string is a sequence of UTF-16 code units. The model covers the strings
  whose code units are below 256: a \<^typ>\<open>char\<close> is such a code unit and
  \<^const>\<open>length\<close> is \<^verbatim>\<open>.length\<close>.
\<close>

definition charCode :: "char \<Rightarrow> nat" where
  "charCode c = of_char c"

text \<open>The class \<^verbatim>\<open>\s\<close> (and what \<^verbatim>\<open>trim\<close> strips): tab, line feed,
  vertical tab, form feed, carriage return, space and no-break space.\<close>

definition isWhitespace :: "char \<Rightarrow> bool" where
  "isWhitespace c = (charCode c \<in> {9, 10, 11, 12, 13, 32, 160})"

definition isUpperAZ :: "char \<Rightarrow> bool" where
  "isUpperAZ c = (65 \<le> charCode c \<and> charCode c \<le> 90)"

definition isLowerAZ :: "char \<Rightarrow> bool" where
  "isLowerAZ c = (97 \<le> charCode c \<and> charCode c \<le> 122)"

definition isDigit :: "char \<Rightarrow> bool" where
  "isDigit c = (48 \<le> charCode c \<and> charCode c \<le> 57)"

text \<open>The class \<^verbatim>\<open>\w\<close>: ASCII letters, digits and underscore.\<close>

definition isWordChar :: "char \<Rightarrow> bool" where
  "isWordChar c = (isUpperAZ c \<or> isLowerAZ c \<or> isDigit c \<or> charCode c = 95)"

text \<open>\<^verbatim>\<open>toLowerCase\<close> on code units below 256: A to Z, and the accented capitals
  0xC0 to 0xDE except the multiplication sign 0xD7, move up by 32.\<close>

definition lowerChar :: "char \<Rightarrow> char" where
  "lowerChar c =
     (if isUpperAZ c \<or> (192 \<le> charCode c \<and> charCode c \<le> 222 \<and> charCode c \<noteq> 215)
      then char_of (charCode c + 32) else c)"

definition toLowerCase :: "string \<Rightarrow> string" where
  "toLowerCase s = map lowerChar s"

text \<open>\<^verbatim>\<open>replace(/\s+/g, ' ')\<close>: every maximal run of whitespace becomes one space.\<close>

function collapseWhitespace :: "string \<Rightarrow> string" where
  "collapseWhitespace [] = []"
| "collapseWhitespace (c # cs) =
     (if isWhitespace c then CHR '' '' # collapseWhitespace (dropWhile isWhitespace cs)
      else c # collapseWhitespace cs)"
  by pat_completeness auto
termination
  by (relation "measure length") (auto simp: less_Suc_eq_le length_dropWhile_le)

text \<open>\<^verbatim>\<open>replace(/[^\w\s]/g, '')\<close>.\<close>

definition stripPunctuation :: "string \<Rightarrow> string" where
  "stripPunctuation s = filter (\<lambda>c. isWordChar c \<or> isWhitespace c) s"

definition trim :: "string \<Rightarrow> string" where
  "trim s = rev (dropWhile isWhitespace (rev (dropWhile isWhitespace s)))"

text \<open>\<^verbatim>\<open>s.split(' ')\<close>: the pieces between single spaces, empty pieces included.\<close>

fun splitSpaces :: "string \<Rightarrow> string list" where
  "splitSpaces [] = [[]]"
| "splitSpaces (c # cs) =
     (if c = CHR '' '' then [] # splitSpaces cs
      else (case splitSpaces cs of w # ws \<Rightarrow> (c # w) # ws | [] \<Rightarrow> [[c]]))"

text \<open>\<^verbatim>\<open>[...new Set(xs)]\<close>: the elements in order of first occurrence.\<close>

fun dedupe :: "'a list \<Rightarrow> 'a list" where
  "dedupe [] = []"
| "dedupe (x # xs) = x # dedupe (filter (\<lambda>y. y \<noteq> x) xs)"

text \<open>
  The pattern tables of the module. What a pattern matches is decided by the regular
  expression engine of the runtime, which is a parameter of the model: every theorem
  below holds for every engine. \<open>regexp_test\<close> is \<^verbatim>\<open>pattern.test(content)\<close> and
  \<open>string_match\<close> is \<^verbatim>\<open>content.match(pattern)\<close> for a pattern with the \<^verbatim>\<open>g\<close>
  flag: the list of all matches, empty where JavaScript answers \<^verbatim>\<open>null\<close>.
  Patterns that are one character class are written out as list functions instead.

  \<^item> \<open>BitLy\<close> \<^verbatim>\<open>/bit\.ly\/[a-z0-9]+/i\<close>
  \<^item> \<open>TinyUrl\<close> \<^verbatim>\<open>/tinyurl\.com\/[a-z0-9]+/i\<close>
  \<^item> \<open>TCo\<close> \<^verbatim>\<open>/t\.co\/[a-z0-9]+/i\<close>
  \<^item> \<open>SpamDomain\<close> \<^verbatim>\<open>/\b(viagra|cialis|casino|poker|lottery|prize|winner)\b.*\.(com|net|org)/i\<close>
  \<^item> \<open>RedirectUrl\<close> \<^verbatim>\<open>/\bredirect\b.*\burl=/i\<close>
  \<^item> \<open>ClickHere\<close> \<^verbatim>\<open>/\bclick\b.*\bhere\b.*https?:\/\//i\<close>
  \<^item> \<open>AnyUrl\<close> \<^verbatim>\<open>/https?:\/\/[^\s]+/g\<close>
  \<^item> \<open>Profanity\<close> \<^verbatim>\<open>/\b(fuck|shit|ass|damn|bitch|bastard|crap)\b/i\<close>
  \<^item> \<open>Slur\<close> \<^verbatim>\<open>/\b(idiot|moron|stupid|dumb|retard)\b/i\<close>
  \<^item> \<open>Threat\<close> \<^verbatim>\<open>/\b(kill|die|death|murder|threat)\b.*\b(you|your)\b/i\<close>
  \<^item> \<open>RepeatedChar\<close> \<^verbatim>\<open>/(.)\1{5,}/\<close>
  \<^item> \<open>RepeatedWord\<close> \<^verbatim>\<open>/\b(\w+)\b(?:\s+\1\b){3,}/i\<close>
  \<^item> \<open>SalesWord\<close> \<^verbatim>\<open>/\b(buy|sell|discount|offer|free|click)\b/gi\<close>
  \<^item> \<open>LinkWord\<close> \<^verbatim>\<open>/\b(http|www)\b/gi\<close>
  \<^item> \<open>Shouting\<close> \<^verbatim>\<open>/[!?]{3,}/g\<close>
  \<^item> \<open>Price\<close> \<^verbatim>\<open>/\$\d+/g\<close>
  \<^item> \<open>Urgency\<close> \<^verbatim>\<open>/\b(urgent|limited|act now|don't miss)\b/gi\<close>
\<close>

datatype RegExp =
    BitLy | TinyUrl | TCo | SpamDomain | RedirectUrl | ClickHere | AnyUrl
  | Profanity | Slur | Threat
  | RepeatedChar | RepeatedWord
  | SalesWord | LinkWord | Shouting | Price | Urgency

text \<open>
  What \<^verbatim>\<open>JSON.parse\<close> returns; \<^const>\<open>None\<close> in \<open>json_parse\<close> is a thrown
  \<^verbatim>\<open>SyntaxError\<close>. An object is the list of its properties, one entry for each key.
\<close>

datatype JSON =
    JNull | JBool bool | JNumber number | JString string
  | JArray "JSON list" | JObject "(string \<times> JSON) list"

record Runtime =
  regexp_test :: "RegExp \<Rightarrow> string \<Rightarrow> bool"
  string_match :: "string \<Rightarrow> RegExp \<Rightarrow> string list"
  json_parse :: "string \<Rightarrow> JSON option"

definition MALICIOUS_URL_PATTERNS :: "RegExp list" where
  "MALICIOUS_URL_PATTERNS = [BitLy, TinyUrl, TCo, SpamDomain, RedirectUrl, ClickHere]"

definition PROFANITY_PATTERNS :: "RegExp list" where
  "PROFANITY_PATTERNS = [Profanity, Slur, Threat]"

definition SPAM_PATTERNS :: "RegExp list" where
  "SPAM_PATTERNS = [RepeatedChar, RepeatedWord]"

subsection \<open>The detectors\<close>

text \<open>A loop that pushes one flag at the first matching pattern and breaks.\<close>

definition checkMaliciousLinks :: "Runtime \<Rightarrow> string \<Rightarrow> string list" where
  "checkMaliciousLinks rt content =
     (if list_ex (\<lambda>pattern. regexp_test rt pattern content) MALICIOUS_URL_PATTERNS
      then [''malicious_link''] else [])
     @ (let urlMatches = string_match rt content AnyUrl
        in if urlMatches \<noteq> [] \<and> length urlMatches > 3 then [''excessive_links''] else [])"

definition checkProfanity :: "Runtime \<Rightarrow> string \<Rightarrow> string list" where
  "checkProfanity rt content =
     (if list_ex (\<lambda>pattern. regexp_test rt pattern content) PROFANITY_PATTERNS
      then [''profanity''] else [])"

definition checkSpamPatterns :: "Runtime \<Rightarrow> string \<Rightarrow> string list" where
  "checkSpamPatterns rt content =
     (if list_ex (\<lambda>pattern. regexp_test rt pattern content) SPAM_PATTERNS
      then [''spam_pattern''] else [])"

definition checkExcessiveCaps :: "string \<Rightarrow> string list" where
  "checkExcessiveCaps content =
     (if length content \<ge> 20 then
        (let letters = filter (\<lambda>c. isUpperAZ c \<or> isLowerAZ c) content
         in if length letters \<ge> 10 then
              (let upperCount = length (filter isUpperAZ letters);
                   upperRatio = double_div (of_nat upperCount) (of_nat (length letters))
               in if upperRatio > roundDouble (7 / 10) then [''excessive_caps''] else [])
            else [])
      else [])"

definition normalizeContent :: "string \<Rightarrow> string" where
  "normalizeContent content =
     trim (stripPunctuation (collapseWhitespace (toLowerCase content)))"

definition calculateSimilarity :: "string \<Rightarrow> string \<Rightarrow> rat" where
  "calculateSimilarity a b =
     (let wordsA = dedupe (filter (\<lambda>w. length w > 2) (splitSpaces a));
          wordsB = dedupe (filter (\<lambda>w. length w > 2) (splitSpaces b))
      in if wordsA = [] \<and> wordsB = [] then 1
         else if wordsA = [] \<or> wordsB = [] then 0
         else (let intersection = dedupe (filter (\<lambda>x. x \<in> set wordsB) wordsA);
                   union = dedupe (wordsA @ wordsB)
               in double_div (of_nat (length intersection)) (of_nat (length union))))"

text \<open>
  The loop of \<^verbatim>\<open>checkDuplicateContent\<close> over \<^verbatim>\<open>recentContents\<close>. Both branches
  push their flag and \<^verbatim>\<open>break\<close>, so the loop ends at the first entry that is an
  exact match or more than 0.8 similar; the entries after it are not looked at.
\<close>

fun scanRecentContents :: "string \<Rightarrow> string list \<Rightarrow> string list" where
  "scanRecentContents normalized [] = []"
| "scanRecentContents normalized (recent # rest) =
     (let recentNormalized = normalizeContent recent
      in if normalized = recentNormalized then [''duplicate_content'']
         else if calculateSimilarity normalized recentNormalized > roundDouble (8 / 10)
              then [''similar_content'']
              else scanRecentContents normalized rest)"

definition checkDuplicateContent :: "string \<Rightarrow> string list \<Rightarrow> string list" where
  "checkDuplicateContent content recentContents =
     scanRecentContents (normalizeContent content) recentContents"

subsection \<open>Scoring\<close>

definition flagScores :: "(string \<times> int) list" where
  "flagScores =
     [(''malicious_link'', 5), (''profanity'', 3), (''spam_pattern'', 3),
      (''excessive_caps'', 1), (''excessive_links'', 2), (''duplicate_content'', 4),
      (''similar_content'', 2)]"

text \<open>\<^verbatim>\<open>flagScores[flag] || 1\<close>: a missing entry, like an entry 0, counts 1.\<close>

definition flagScore :: "string \<Rightarrow> int" where
  "flagScore flag =
     (case map_of flagScores flag of None \<Rightarrow> 1 | Some w \<Rightarrow> if w = 0 then 1 else w)"

text \<open>
  The weight table as the specification words it, for comparison with
  \<^const>\<open>flagScore\<close>: malicious_link 5, duplicate_content 4, profanity 3, spam_pattern 3,
  similar_content 2, excessive_links 2, excessive_caps 1, any unrecognized flag 1.
\<close>

definition spec_flagWeight :: "string \<Rightarrow> int" where
  "spec_flagWeight flag =
     (if flag = ''malicious_link'' then 5
      else if flag = ''duplicate_content'' then 4
      else if flag = ''profanity'' then 3
      else if flag = ''spam_pattern'' then 3
      else if flag = ''similar_content'' then 2
      else if flag = ''excessive_links'' then 2
      else if flag = ''excessive_caps'' then 1
      else 1)"

definition hardRuleFlags :: "string list" where
  "hardRuleFlags = [''malicious_link'', ''duplicate_content'']"

definition allFlags :: "Runtime \<Rightarrow> string \<Rightarrow> string list \<Rightarrow> string list" where
  "allFlags rt content recentContents =
     checkMaliciousLinks rt content @ checkProfanity rt content
     @ checkSpamPatterns rt content @ checkExcessiveCaps content
     @ checkDuplicateContent content recentContents"

definition checkHardRules :: "Runtime \<Rightarrow> string \<Rightarrow> string list \<Rightarrow> RuleCheckResult" where
  "checkHardRules rt content recentContents =
     (let flags = allFlags rt content recentContents
      in \<lparr> ruleScore = fold (\<lambda>flag score. score + flagScore flag) flags 0,
           ruleFlags = dedupe flags,
           hardRuleTriggered = list_ex (\<lambda>flag. flag \<in> set hardRuleFlags) flags \<rparr>)"

section \<open>Content safety classifier adapter\<close>

subsection \<open>The heuristic\<close>

definition suspiciousPatterns :: "(RegExp \<times> rat) list" where
  "suspiciousPatterns =
     [(SalesWord, roundDouble (1 / 10)), (LinkWord, roundDouble (5 / 100)),
      (Shouting, roundDouble (1 / 10)), (Price, roundDouble (15 / 100)),
      (Urgency, roundDouble (2 / 10))]"

text \<open>
  \<^verbatim>\<open>score += Math.min(matches.length * weight, 0.3)\<close>: the product is rounded, the
  smaller of it and the double 0.3 is added, and the sum is rounded.
\<close>

definition addPatternScore :: "Runtime \<Rightarrow> string \<Rightarrow> RegExp \<times> rat \<Rightarrow> rat \<Rightarrow> rat" where
  "addPatternScore rt content pw score =
     (let matches = string_match rt content (fst pw)
      in if matches \<noteq> []
         then double_add score
                (min (double_mul (of_nat (length matches)) (snd pw)) (roundDouble (3 / 10)))
         else score)"

definition checkWithHeuristics :: "Runtime \<Rightarrow> string \<Rightarrow> AICheckResult" where
  "checkWithHeuristics rt content =
     (let score = min (fold (addPatternScore rt content) suspiciousPatterns 0) 1
      in \<lparr> aiScore = Finite score,
           aiLabel = (if score > 1 / 2 then ''suspicious'' else ''likely_safe''),
           success = True,
           error = None \<rparr>)"

subsection \<open>The classifier call\<close>

record Categories =
  spam :: number
  toxic :: number
  inappropriate :: number

record EnhancedAICheckResult = AICheckResult +
  categories :: Categories

record ParsedScores =
  parsed_spam :: number
  parsed_toxic :: number
  parsed_inappropriate :: number
  parsed_overall :: number
  parsed_label :: string

definition Math_min :: "number \<Rightarrow> number \<Rightarrow> number" where
  "Math_min a b = (if a = NaN \<or> b = NaN then NaN else if num_le a b then a else b)"

definition Math_max :: "number \<Rightarrow> number \<Rightarrow> number" where
  "Math_max a b = (if a = NaN \<or> b = NaN then NaN else if num_le a b then b else a)"

definition clamp01 :: "number \<Rightarrow> number" where
  "clamp01 x = Math_max (Finite 0) (Math_min (Finite 1) x)"

text \<open>\<^verbatim>\<open>response.match(/\{[\s\S]*\}/)\<close>: from the first opening brace to the last
  closing brace after it.\<close>

definition matchBraces :: "string \<Rightarrow> string option" where
  "matchBraces response =
     (let fromOpen = dropWhile (\<lambda>c. c \<noteq> CHR ''{'') response;
          upToClose = rev (dropWhile (\<lambda>c. c \<noteq> CHR ''}'') (rev fromOpen))
      in if upToClose = [] then None else Some upToClose)"

text \<open>
  \<^verbatim>\<open>parseAIResponse\<close>. A thrown \<^verbatim>\<open>JSON.parse\<close> is caught and gives
  \<^verbatim>\<open>null\<close>; so does a parsed value that is not an object with the four numbers and
  the label.
\<close>

definition parseAIResponse :: "Runtime \<Rightarrow> string \<Rightarrow> ParsedScores option" where
  "parseAIResponse rt response =
     (case matchBraces response of
        None \<Rightarrow> None
      | Some jsonMatch \<Rightarrow>
          (case json_parse rt jsonMatch of
             Some (JObject entries) \<Rightarrow>
               (case (map_of entries ''spam'', map_of entries ''toxic'',
                      map_of entries ''inappropriate'', map_of entries ''overall'',
                      map_of entries ''label'') of
                  (Some (JNumber s), Some (JNumber t), Some (JNumber i), Some (JNumber ov),
                   Some (JString l)) \<Rightarrow>
                    Some \<lparr> parsed_spam = clamp01 s, parsed_toxic = clamp01 t,
                           parsed_inappropriate = clamp01 i, parsed_overall = clamp01 ov,
                           parsed_label = l \<rparr>
                | _ \<Rightarrow> None)
           | _ \<Rightarrow> None))"

definition AI_TIMEOUT_MS :: nat where
  "AI_TIMEOUT_MS = 5000"

text \<open>
  The classifier binding. \<^verbatim>\<open>ai.run(model, inputs)\<close> returns a promise, which
  resolves or rejects some number of milliseconds after the call, or stays pending
  for ever. The prompt is the module's template with the content in place of its
  placeholder. The inputs are all that the adapter hands over: the signal of its
  \<^verbatim>\<open>AbortController\<close> is not among them.
\<close>

datatype Prompt = ModerationPrompt string

record AiInputs =
  prompt :: Prompt
  max_tokens :: nat
  temperature :: rat

text \<open>
  What the promise resolves to: a string; an object with the key \<^verbatim>\<open>response\<close>, with
  the string under that key, or \<^const>\<open>None\<close> when the value there is not a string (a
  number, \<^verbatim>\<open>undefined\<close>, \<^verbatim>\<open>null\<close>, a plain object or array: the adapter casts it
  to a string unchecked); or anything else (\<^verbatim>\<open>null\<close>, a number, an object without the
  key). What it rejects with: an \<^verbatim>\<open>Error\<close> with its message, or a value that is not an
  \<^verbatim>\<open>Error\<close>.
\<close>

datatype AiResponse =
  ResponseString string | ResponseObject "string option" | ResponseOther

datatype Thrown = ErrorObject string | NotAnError

datatype RunOutcome = Resolves nat AiResponse | Rejects nat Thrown | StaysPending

record AiBinding =
  run :: "string \<Rightarrow> AiInputs \<Rightarrow> RunOutcome"

text \<open>
  A finished call of the adapter: the milliseconds it took, whether the timer had
  called \<^verbatim>\<open>controller.abort()\<close> by then, and the result. The timer is set to
  \<^const>\<open>AI_TIMEOUT_MS\<close> before the call and cleared after the \<^verbatim>\<open>await\<close>; its callback
  only sets the controller's flag.
\<close>

record AdapterCall =
  elapsedMs :: nat
  aborted :: bool
  result :: EnhancedAICheckResult

definition failedCheck :: "string \<Rightarrow> EnhancedAICheckResult" where
  "failedCheck message =
     \<lparr> aiScore = Finite 0, aiLabel = ''unknown'', success = False, error = Some message,
       categories = \<lparr> spam = Finite 0, toxic = Finite 0, inappropriate = Finite 0 \<rparr> \<rparr>"

text \<open>\<^verbatim>\<open>message.includes(needle)\<close>.\<close>

fun includes_str :: "string \<Rightarrow> string \<Rightarrow> bool" where
  "includes_str [] needle = (needle = [])"
| "includes_str (c # cs) needle =
     (take (length needle) (c # cs) = needle \<or> includes_str cs needle)"

definition catchResult :: "Thrown \<Rightarrow> EnhancedAICheckResult" where
  "catchResult e =
     (let message = (case e of ErrorObject m \<Rightarrow> m | NotAnError \<Rightarrow> ''Unknown error'');
          isTimeout = (includes_str message ''abort'' \<or> includes_str message ''timeout'')
      in failedCheck (if isTimeout then ''AI service timeout''
                      else ''AI service error: '' @ message))"

text \<open>
  The part of \<^verbatim>\<open>checkWithEnhancedAI\<close> after the \<^verbatim>\<open>await\<close>. For an object the
  response text is whatever is under the key \<^verbatim>\<open>response\<close>; when that is not a
  string, \<^verbatim>\<open>responseText.match\<close> throws inside \<^verbatim>\<open>parseAIResponse\<close>, whose own
  \<^verbatim>\<open>catch\<close> answers \<^verbatim>\<open>null\<close>.
\<close>

definition responseResult :: "Runtime \<Rightarrow> AiResponse \<Rightarrow> EnhancedAICheckResult" where
  "responseResult rt response =
     (case (case response of ResponseString text \<Rightarrow> Some (Some text)
                           | ResponseObject text \<Rightarrow> Some text
                           | ResponseOther \<Rightarrow> None) of
        None \<Rightarrow> failedCheck ''Invalid AI response format''
      | Some responseText \<Rightarrow>
          (case Option.bind responseText (parseAIResponse rt) of
             None \<Rightarrow> failedCheck ''Failed to parse AI response''
           | Some parsed \<Rightarrow>
               \<lparr> aiScore = parsed_overall parsed, aiLabel = parsed_label parsed,
                 success = True, error = None,
                 categories = \<lparr> spam = parsed_spam parsed, toxic = parsed_toxic parsed,
                                inappropriate = parsed_inappropriate parsed \<rparr> \<rparr>))"

text \<open>\<^verbatim>\<open>checkWithEnhancedAI\<close>; \<^const>\<open>None\<close> when the awaited promise never settles.\<close>

definition checkWithEnhancedAI :: "Runtime \<Rightarrow> string \<Rightarrow> AiBinding option \<Rightarrow> AdapterCall option" where
  "checkWithEnhancedAI rt content ai =
     (case ai of
        None \<Rightarrow>
          Some \<lparr> elapsedMs = 0, aborted = False,
                 result = failedCheck ''AI service not configured'' \<rparr>
      | Some binding \<Rightarrow>
          (case run binding ''@cf/meta/llama-3.2-1b-instruct''
                  \<lparr> prompt = ModerationPrompt content, max_tokens = 200,
                    temperature = roundDouble (1 / 10) \<rparr> of
             Resolves t response \<Rightarrow>
               Some \<lparr> elapsedMs = t, aborted = (AI_TIMEOUT_MS < t),
                      result = responseResult rt response \<rparr>
           | Rejects t e \<Rightarrow>
               Some \<lparr> elapsedMs = t, aborted = (AI_TIMEOUT_MS < t), result = catchResult e \<rparr>
           | StaysPending \<Rightarrow> None))"

subsection \<open>The pipeline\<close>

text \<open>\<^verbatim>\<open>moderate\<close>; \<^const>\<open>None\<close> when the awaited classifier call never settles.\<close>

definition moderate ::
  "Runtime \<Rightarrow> string \<Rightarrow> TrustLevel \<Rightarrow> string list \<Rightarrow> AiBinding option \<Rightarrow> ModerationResult option" where
  "moderate rt content trustLevel recentContents ai =
     (let ruleResult = checkHardRules rt content recentContents
      in case ai of
           Some binding \<Rightarrow>
             map_option (\<lambda>call. makeDecision ruleResult (result call) trustLevel)
               (checkWithEnhancedAI rt content (Some binding))
         | None \<Rightarrow> Some (makeDecision ruleResult (checkWithHeuristics rt content) trustLevel))"

section \<open>Comment tree builder\<close>

subsection \<open>Comments\<close>

text \<open>
  The fields of \<^verbatim>\<open>Comment\<close> whose names are taken already (\<^verbatim>\<open>id\<close>, \<^verbatim>\<open>content\<close>,
  \<^verbatim>\<open>status\<close>, \<^verbatim>\<open>aiScore\<close>, \<^verbatim>\<open>aiLabel\<close>, \<^verbatim>\<open>ruleScore\<close>, \<^verbatim>\<open>ruleFlags\<close>) are
  prefixed with \<open>comment_\<close>. An optional field is an \<^typ>\<open>'a option\<close>.
\<close>

record UserSummary =
  githubLogin :: string
  avatarUrl :: string
  githubId :: string

record Comment =
  comment_id :: int
  postSlug :: string
  parentId :: "int option"
  userId :: int
  comment_content :: string
  comment_status :: CommentStatus
  moderationSource :: "ModerationSource option"
  comment_aiScore :: "number option"
  comment_aiLabel :: "string option"
  comment_ruleScore :: int
  comment_ruleFlags :: "string list"
  isPinned :: bool
  pinnedAt :: "string option"
  createdAt :: string
  updatedAt :: string

record CommentWithUser = Comment +
  user :: UserSummary

subsection \<open>Tree nodes in a store\<close>

text \<open>
  \<^verbatim>\<open>buildCommentTree\<close> creates one node object per approved comment, keeps the
  nodes in a \<^verbatim>\<open>Map\<close> keyed by comment id, and pushes references to them into the
  \<^verbatim>\<open>children\<close> arrays of other nodes and into \<^verbatim>\<open>rootComments\<close>. The nodes are
  shared and mutated in place, so the model keeps them in an explicit store: the map
  itself. A reference to a node is the key under which the map holds it (every
  reference the second pass uses comes from \<^verbatim>\<open>commentMap.get\<close>; a node that a later
  \<^verbatim>\<open>set\<close> with the same id replaced is never referenced). The value returned is the
  list of root references together with the store they point into.
\<close>

record CommentTree = CommentWithUser +
  children :: "int list"

record BuiltTree =
  commentMap :: "int \<Rightarrow> CommentTree option"
  rootComments :: "int list"

definition filterApprovedComments :: "CommentWithUser list \<Rightarrow> CommentWithUser list" where
  "filterApprovedComments comments =
     filter (\<lambda>comment. comment_status comment = Approved) comments"

text \<open>\<^verbatim>\<open>{ ...comment, children: [] }\<close>.\<close>

definition treeNode :: "CommentWithUser \<Rightarrow> CommentTree" where
  "treeNode comment = CommentWithUser.extend comment (CommentTree.fields [])"

text \<open>\<^verbatim>\<open>commentMap.set(comment.id, treeNode)\<close>.\<close>

definition setNode ::
  "CommentWithUser \<Rightarrow> (int \<Rightarrow> CommentTree option) \<Rightarrow> (int \<Rightarrow> CommentTree option)" where
  "setNode comment m = m(comment_id comment \<mapsto> treeNode comment)"

definition firstPass :: "CommentWithUser list \<Rightarrow> (int \<Rightarrow> CommentTree option)" where
  "firstPass approvedComments = fold setNode approvedComments Map.empty"

definition pushRoot :: "int \<Rightarrow> BuiltTree \<Rightarrow> BuiltTree" where
  "pushRoot node t = t\<lparr>rootComments := rootComments t @ [node]\<rparr>"

text \<open>
  One round of the second loop. \<^verbatim>\<open>if (comment.parentId)\<close> is false for an absent
  parent id and for the id 0.
\<close>

definition secondPassStep :: "CommentWithUser \<Rightarrow> BuiltTree \<Rightarrow> BuiltTree" where
  "secondPassStep comment t =
     (case parentId comment of
        Some pid \<Rightarrow>
          if pid \<noteq> 0 then
            (case commentMap t pid of
               Some parent \<Rightarrow>
                 t\<lparr>commentMap := (commentMap t)
                      (pid \<mapsto> parent\<lparr>children := children parent @ [comment_id comment]\<rparr>)\<rparr>
             | None \<Rightarrow> pushRoot (comment_id comment) t)
          else pushRoot (comment_id comment) t
      | None \<Rightarrow> pushRoot (comment_id comment) t)"

definition buildCommentTree :: "CommentWithUser list \<Rightarrow> BuiltTree" where
  "buildCommentTree comments =
     (let approvedComments = filterApprovedComments comments
      in fold secondPassStep approvedComments
           \<lparr>commentMap = firstPass approvedComments, rootComments = []\<rparr>)"

text \<open>
  The helpers that walk a tree take the list of nodes to walk; in the model, the store
  and the list of references. They recurse through \<^verbatim>\<open>children\<close>, which in a store
  may lead back to a node already visited: the recursion is partial, and \<^const>\<open>None\<close>
  stands for a walk that does not return (or meets a reference the store does not hold).
\<close>

partial_function (option) countTreeComments ::
  "(int \<Rightarrow> CommentTree option) \<Rightarrow> int list \<Rightarrow> nat option" where
  "countTreeComments store tree =
     (case tree of
        [] \<Rightarrow> Some 0
      | node # rest \<Rightarrow>
          (case store node of
             None \<Rightarrow> None
           | Some n \<Rightarrow>
               Option.bind (countTreeComments store (children n)) (\<lambda>below.
               Option.bind (countTreeComments store rest) (\<lambda>count.
               Some (1 + below + count)))))"

text \<open>
  \<^verbatim>\<open>traverse\<close> inside \<^verbatim>\<open>flattenCommentTree\<close>: the list of the comments it pushes to
  \<^verbatim>\<open>result\<close>, each node without its \<^verbatim>\<open>children\<close>, parent before children.
\<close>

partial_function (option) traverse ::
  "(int \<Rightarrow> CommentTree option) \<Rightarrow> int list \<Rightarrow> CommentWithUser list option" where
  "traverse store nodes =
     (case nodes of
        [] \<Rightarrow> Some []
      | node # rest \<Rightarrow>
          (case store node of
             None \<Rightarrow> None
           | Some n \<Rightarrow>
               Option.bind (traverse store (children n)) (\<lambda>below.
               Option.bind (traverse store rest) (\<lambda>after.
               Some (CommentWithUser.truncate n # below @ after)))))"

declare countTreeComments.simps [code]
declare traverse.simps [code]

definition flattenCommentTree ::
  "(int \<Rightarrow> CommentTree option) \<Rightarrow> int list \<Rightarrow> CommentWithUser list option" where
  "flattenCommentTree store tree = traverse store tree"

subsection \<open>Vocabulary of the statements and proofs\<close>

text \<open>The node a comment is pushed under in the second pass, if any.\<close>

definition attachedTo :: "CommentWithUser list \<Rightarrow> CommentWithUser \<Rightarrow> int option" where
  "attachedTo approvedComments comment =
     (case parentId comment of
        Some pid \<Rightarrow>
          if pid \<noteq> 0 \<and> pid \<in> comment_id ` set approvedComments then Some pid else None
      | None \<Rightarrow> None)"

text \<open>
  The parent references among the approved comments have no cycle: some ranking of the
  ids is strictly lower for the parent than for the child. Ids handed out in order of
  creation are such a ranking, since a reply is created after the comment it answers.
\<close>

definition parentsRankLower :: "(int \<Rightarrow> nat) \<Rightarrow> CommentWithUser list \<Rightarrow> bool" where
  "parentsRankLower rank approvedComments =
     list_all (\<lambda>comment. case attachedTo approvedComments comment of
                            None \<Rightarrow> True
                          | Some pid \<Rightarrow> rank pid < rank (comment_id comment))
       approvedComments"

text \<open>The state of the second pass after the comments \<open>Q\<close>, written as a function of \<open>Q\<close>.\<close>

definition kids :: "CommentWithUser list \<Rightarrow> CommentWithUser list \<Rightarrow> int \<Rightarrow> int list" where
  "kids A Q i = map comment_id (filter (\<lambda>d. attachedTo A d = Some i) Q)"

definition orphans :: "CommentWithUser list \<Rightarrow> CommentWithUser list \<Rightarrow> int list" where
  "orphans A Q = map comment_id (filter (\<lambda>d. attachedTo A d = None) Q)"

definition storeAfter ::
  "CommentWithUser list \<Rightarrow> CommentWithUser list \<Rightarrow> int \<Rightarrow> CommentTree option" where
  "storeAfter A Q i = map_option (\<lambda>n. n\<lparr>children := kids A Q i\<rparr>) (firstPass A i)"

definition kidsOf :: "(int \<Rightarrow> CommentTree option) \<Rightarrow> int \<Rightarrow> int list" where
  "kidsOf h j = (case h j of Some n \<Rightarrow> children n | None \<Rightarrow> [])"

definition keysAgree :: "(int \<Rightarrow> CommentTree option) \<Rightarrow> bool" where
  "keysAgree h = (\<forall>i n. h i = Some n \<longrightarrow> comment_id n = i)"

text \<open>A comment as the tests of the tree builder write it, for the concrete cases.\<close>

definition exampleComment :: "int \<Rightarrow> int option \<Rightarrow> CommentStatus \<Rightarrow> string \<Rightarrow> CommentWithUser" where
  "exampleComment i parent st txt =
     \<lparr> comment_id = i, postSlug = ''test-post'', parentId = parent, userId = 1,
       comment_content = txt, comment_status = st, moderationSource = None,
       comment_aiScore = None, comment_aiLabel = None, comment_ruleScore = 0,
       comment_ruleFlags = [], isPinned = False, pinnedAt = None,
       createdAt = ''2024-01-01T00:00:00Z'', updatedAt = ''2024-01-01T00:00:00Z'',
       user = \<lparr> githubLogin = ''user'', avatarUrl = ''https://github.com/user.png'',
                githubId = ''github123'' \<rparr> \<rparr>"

section \<open>Properties of the numbers\<close>

lemma pow2_powi: "pow2 e = 2 powi e"
  by (simp add: pow2_def power_int_def field_simps)

lemma pow2_pos: "0 < pow2 e"
  by (simp add: pow2_def)

lemma of_int_bitlen_bounds:
  assumes "0 < p"
  shows "(2::rat) powi (bitlen p - 1) \<le> of_int p \<and> of_int p < (2::rat) powi (bitlen p)"
proof -
  from bitlen_bounds [OF assms] have p1: "2 ^ nat (bitlen p - 1) \<le> p" and p2: "p < 2 ^ nat (bitlen p)" by auto
  have bp: "1 \<le> bitlen p" using assms by (simp add: bitlen_alt_def)
  have "(of_int (2 ^ nat (bitlen p - 1)) :: rat) \<le> of_int p" using p1 by (simp only: of_int_le_iff)
  moreover have "(of_int p :: rat) < of_int (2 ^ nat (bitlen p))" using p2 by (simp only: of_int_less_iff)
  ultimately show ?thesis using bp by (simp add: power_int_def)
qed

text \<open>\<^const>\<open>binaryExponent\<close> is the exponent of the binade of a positive number, and the only one.\<close>

lemma binaryExponent_bounds:
  assumes "0 < x"
  shows "pow2 (binaryExponent x) \<le> x \<and> x < pow2 (binaryExponent x + 1)"
proof -
  obtain p q where pq: "quotient_of x = (p, q)" by (cases "quotient_of x")
  then have q: "0 < q" and x: "x = of_int p / of_int q"
    using quotient_of_denom_pos quotient_of_div by auto
  with assms have p: "0 < p" by (simp add: zero_less_divide_iff)
  let ?bp = "bitlen p" and ?bq = "bitlen q"
  from of_int_bitlen_bounds [OF p] have P1: "(2::rat) powi (?bp - 1) \<le> of_int p" and P2: "of_int p < (2::rat) powi ?bp" by auto
  from of_int_bitlen_bounds [OF q] have Q1: "(2::rat) powi (?bq - 1) \<le> of_int q" and Q2: "of_int q < (2::rat) powi ?bq" by auto
  have qpos: "(0::rat) < of_int q" using q by simp
  have ppos: "(0::rat) < of_int p" using p by simp
  have up: "x < 2 powi (?bp - ?bq + 1)"
  proof -
    have "of_int p < (2::rat) powi (?bp - ?bq + 1) * 2 powi (?bq - 1)"
      using P2 by (simp add: power_int_add [symmetric])
    also have "\<dots> \<le> 2 powi (?bp - ?bq + 1) * of_int q"
      using Q1 by (simp add: mult_left_mono)
    finally have "of_int p / of_int q < (2::rat) powi (?bp - ?bq + 1)"
      using qpos by (simp only: pos_divide_less_eq)
    then show ?thesis by (simp only: x)
  qed
  have lo: "2 powi (?bp - ?bq - 1) \<le> x"
  proof -
    have "(2::rat) powi (?bp - ?bq - 1) * of_int q \<le> 2 powi (?bp - ?bq - 1) * 2 powi ?bq"
      using Q2 by (simp add: mult_left_mono)
    also have "\<dots> = 2 powi (?bp - 1)" by (simp add: power_int_add [symmetric])
    also have "\<dots> \<le> of_int p" by (rule P1)
    finally have "(2::rat) powi (?bp - ?bq - 1) \<le> of_int p / of_int q"
      using qpos by (simp only: pos_le_divide_eq)
    then show ?thesis by (simp only: x)
  qed
  show ?thesis
    using up lo pq by (auto simp: binaryExponent_def pow2_powi Let_def not_le)
qed

lemma binaryExponent_unique:
  assumes "0 < x" and lo: "pow2 a \<le> x" and hi: "x < pow2 (a + 1)"
  shows "binaryExponent x = a"
proof -
  let ?e = "binaryExponent x"
  from binaryExponent_bounds [OF assms(1)]
  have elo: "2 powi ?e \<le> x" and ehi: "x < 2 powi (?e + 1)" by (simp_all add: pow2_powi)
  from lo hi have alo: "2 powi a \<le> x" and ahi: "x < 2 powi (a + 1)" by (simp_all add: pow2_powi)
  have "\<not> ?e < a"
  proof
    assume "?e < a"
    then have "(2::rat) powi (?e + 1) \<le> 2 powi a" by (intro power_int_increasing) auto
    with alo ehi show False by simp
  qed
  moreover have "\<not> a < ?e"
  proof
    assume "a < ?e"
    then have "(2::rat) powi (a + 1) \<le> 2 powi ?e" by (intro power_int_increasing) auto
    with elo ahi show False by simp
  qed
  ultimately show ?thesis by simp
qed

lemma roundHalfEven_nonneg: "0 \<le> m \<Longrightarrow> 0 \<le> roundHalfEven m"
  by (auto simp: roundHalfEven_def Let_def)

lemma roundDouble_nonneg: "0 \<le> x \<Longrightarrow> 0 \<le> roundDouble x"
  by (auto simp: roundDouble_def Let_def pow2_pos less_imp_le
      intro!: mult_nonneg_nonneg roundHalfEven_nonneg divide_nonneg_pos)

text \<open>Rounding moves a number by at most half a unit in the last place.\<close>

lemma roundHalfEven_error: "\<bar>of_int (roundHalfEven m) - m\<bar> \<le> 1 / 2"
proof -
  have "of_int \<lfloor>m\<rfloor> \<le> m" "m < of_int \<lfloor>m\<rfloor> + 1" by linarith+
  then show ?thesis
    by (auto simp: roundHalfEven_def Let_def abs_le_iff)
qed

lemma roundDouble_error:
  assumes "x \<noteq> 0"
  shows "\<bar>roundDouble x - x\<bar> \<le> pow2 (max (binaryExponent \<bar>x\<bar>) (- 1022) - 52) / 2"
proof -
  let ?ulp = "pow2 (max (binaryExponent \<bar>x\<bar>) (- 1022) - 52)"
  have u: "0 < ?ulp" by (rule pow2_pos)
  have "roundDouble x - x = (of_int (roundHalfEven (x / ?ulp)) - x / ?ulp) * ?ulp"
    using assms u by (simp add: roundDouble_def Let_def algebra_simps)
  then have "\<bar>roundDouble x - x\<bar> = \<bar>of_int (roundHalfEven (x / ?ulp)) - x / ?ulp\<bar> * ?ulp"
    using u by (simp add: abs_mult)
  also have "\<dots> \<le> 1 / 2 * ?ulp"
    using u by (intro mult_right_mono roundHalfEven_error) simp
  finally show ?thesis by simp
qed

lemma roundHalfEven_of_int: "roundHalfEven (of_int z) = z"
  by (simp add: roundHalfEven_def Let_def)

lemma pow2_add: "pow2 (a + b) = pow2 a * pow2 b"
  by (simp add: pow2_powi power_int_add)

lemma pow2_mono: "a \<le> b \<Longrightarrow> pow2 a \<le> pow2 b"
  by (simp add: pow2_powi power_int_increasing)

lemma pow2_nat: "0 \<le> j \<Longrightarrow> pow2 j = of_int (2 ^ nat j)"
  by (simp add: pow2_def)

text \<open>
  A number of at most 53 significant bits above the smallest subnormal is a double, and
  rounding gives doubles: rounding twice is rounding once.
\<close>

lemma roundDouble_representable:
  assumes k: "\<bar>k\<bar> < 2 ^ 53" and c: "- 1074 \<le> c"
  shows "roundDouble (of_int k * pow2 c) = of_int k * pow2 c"
proof (cases "k = 0")
  case True
  then show ?thesis by (simp add: roundDouble_def)
next
  case False
  define y :: rat where "y = of_int k * pow2 c"
  define e where "e = max (binaryExponent \<bar>y\<bar>) (- 1022)"
  have y0: "y \<noteq> 0" using False pow2_pos [of c] by (simp add: y_def)
  then have ypos: "0 < \<bar>y\<bar>" by simp
  have "\<bar>y\<bar> = of_int \<bar>k\<bar> * pow2 c" using pow2_pos [of c] by (simp add: y_def abs_mult)
  also have "\<dots> < of_int (2 ^ 53) * pow2 c"
    using k pow2_pos [of c] by (intro mult_strict_right_mono) (simp_all only: of_int_less_iff)
  also have "\<dots> = pow2 53 * pow2 c" by (simp add: pow2_def)
  also have "\<dots> = pow2 (53 + c)" by (rule pow2_add [symmetric])
  finally have up: "\<bar>y\<bar> < pow2 (53 + c)" .
  have "\<not> 53 + c \<le> binaryExponent \<bar>y\<bar>"
  proof
    assume "53 + c \<le> binaryExponent \<bar>y\<bar>"
    then have "pow2 (53 + c) \<le> pow2 (binaryExponent \<bar>y\<bar>)" by (rule pow2_mono)
    also have "\<dots> \<le> \<bar>y\<bar>" using binaryExponent_bounds [OF ypos] by simp
    finally show False using up by simp
  qed
  then have e: "e \<le> c + 52" using c by (simp add: e_def)
  define j where "j = c + 52 - e"
  have j: "0 \<le> j" using e by (simp add: j_def)
  have "c = j + (e - 52)" by (simp add: j_def)
  then have "pow2 c = pow2 j * pow2 (e - 52)" by (simp only: pow2_add [symmetric])
  then have pc: "pow2 c = of_int (2 ^ nat j) * pow2 (e - 52)"
    using j by (simp only: pow2_nat)
  have u: "pow2 (e - 52) \<noteq> 0" using pow2_pos [of "e - 52"] by simp
  have yk: "y = of_int (k * 2 ^ nat j) * pow2 (e - 52)"
    by (simp only: y_def pc of_int_mult mult.assoc)
  have "y / pow2 (e - 52) = of_int (k * 2 ^ nat j)"
    by (subst yk) (use u in simp)
  then have rh: "roundHalfEven (y / pow2 (e - 52)) = k * 2 ^ nat j"
    by (simp only: roundHalfEven_of_int)
  have "roundDouble y = of_int (roundHalfEven (y / pow2 (e - 52))) * pow2 (e - 52)"
    using y0 by (simp only: roundDouble_def Let_def if_False e_def)
  also have "\<dots> = y"
    by (simp only: rh yk [symmetric])
  finally show ?thesis by (simp only: y_def)
qed

lemma roundHalfEven_bounds:
  "of_int (roundHalfEven m) \<le> of_int \<lfloor>m\<rfloor> + (1::rat) \<and> \<lfloor>m\<rfloor> \<le> roundHalfEven m"
  by (auto simp: roundHalfEven_def Let_def)

lemma roundDouble_idem: "roundDouble (roundDouble x) = roundDouble x"
proof (cases "x = 0")
  case True
  then show ?thesis by (simp add: roundDouble_def)
next
  case False
  then have xpos: "0 < \<bar>x\<bar>" by simp
  let ?e = "max (binaryExponent \<bar>x\<bar>) (- 1022)"
  let ?ulp = "pow2 (?e - 52)"
  let ?m = "x / ?ulp"
  let ?n = "roundHalfEven ?m"
  have u: "0 < ?ulp" by (rule pow2_pos)
  have r: "roundDouble x = of_int ?n * ?ulp"
    using False by (simp add: roundDouble_def Let_def)
  have "\<bar>x\<bar> < pow2 (binaryExponent \<bar>x\<bar> + 1)" using binaryExponent_bounds [OF xpos] by simp
  also have "\<dots> \<le> pow2 (?e + 1)" by (rule pow2_mono) simp
  also have "\<dots> = pow2 (53 + (?e - 52))" by (rule arg_cong [where f = pow2]) linarith
  also have "\<dots> = pow2 53 * ?ulp" by (rule pow2_add)
  finally have "\<bar>x\<bar> / ?ulp < pow2 53" using u by (simp only: pos_divide_less_eq)
  moreover have "\<bar>?m\<bar> = \<bar>x\<bar> / ?ulp" using u by (simp add: abs_divide)
  moreover have "pow2 53 = 2 ^ 53" by (simp add: pow2_def)
  ultimately have m: "\<bar>?m\<bar> < 2 ^ 53" by (simp only:)
  then have "?m < 2 ^ 53 \<and> - ?m < 2 ^ 53" by (rule abs_less_iff [THEN iffD1])
  then have "?m < 2 ^ 53" "- (2 ^ 53) < ?m" by linarith+
  then have "\<lfloor>?m\<rfloor> < 2 ^ 53" "- (2 ^ 53) \<le> \<lfloor>?m\<rfloor>"
    by (simp_all add: floor_less_iff le_floor_iff)
  then have n: "?n \<le> 2 ^ 53" "- (2 ^ 53) \<le> ?n"
    using roundHalfEven_bounds [of ?m] by linarith+
  show ?thesis
  proof (cases "\<bar>?n\<bar> < 2 ^ 53")
    case True
    have "roundDouble (of_int ?n * ?ulp) = of_int ?n * ?ulp"
      by (rule roundDouble_representable [OF True]) simp
    then show ?thesis by (simp only: r)
  next
    case big: False
    with n have "?n = 2 ^ 53 \<or> ?n = - (2 ^ 53)" by linarith
    then obtain h :: int where h: "?n = h * 2" "\<bar>h\<bar> < 2 ^ 53"
    proof
      assume "?n = 2 ^ 53"
      then have "?n = 2 ^ 52 * 2" "\<bar>2 ^ 52 :: int\<bar> < 2 ^ 53" by simp_all
      then show ?thesis by (rule that)
    next
      assume "?n = - (2 ^ 53)"
      then have "?n = (- (2 ^ 52)) * 2" "\<bar>- (2 ^ 52) :: int\<bar> < 2 ^ 53" by simp_all
      then show ?thesis by (rule that)
    qed
    have "of_int ?n * ?ulp = of_int h * (2 * ?ulp)" by (simp add: h(1))
    also have "2 * ?ulp = pow2 (?e - 52 + 1)" unfolding pow2_add by (simp add: pow2_def)
    finally have eq: "of_int ?n * ?ulp = of_int h * pow2 (?e - 52 + 1)" .
    have "roundDouble (of_int h * pow2 (?e - 52 + 1)) = of_int h * pow2 (?e - 52 + 1)"
      by (rule roundDouble_representable [OF h(2)]) simp
    then show ?thesis by (simp only: r eq)
  qed
qed

text \<open>
  The doubles that the three score thresholds denote. The double of 0.85 lies below
  85/100; no double lies between the double of 0.15 and 15/100, nor between 65/100 and
  the double of 0.65.
\<close>

lemma roundDouble_15_100: "roundDouble (15 / 100) = 5404319552844595 / 36028797018963968"
  by code_simp

lemma roundDouble_65_100: "roundDouble (65 / 100) = 5854679515581645 / 9007199254740992"
  by code_simp

lemma roundDouble_85_100: "roundDouble (85 / 100) = 7656119366529843 / 9007199254740992"
  by code_simp

lemma double_le_15_100:
  assumes d: "roundDouble d = d" and le: "d \<le> 15 / 100"
  shows "d \<le> roundDouble (15 / 100)"
proof -
  note D = roundDouble_15_100
  show ?thesis
  proof (cases "d \<le> 1 / 8")
    case True
    then show ?thesis unfolding D by simp
  next
    case False
    then have pos: "0 < d" and nz: "d \<noteq> 0" by auto
    have "binaryExponent \<bar>d\<bar> = - 3"
      using False le pos by (intro binaryExponent_unique) (auto simp: pow2_def)
    then have "roundDouble d = of_int (roundHalfEven (d * 36028797018963968)) / 36028797018963968"
      using nz by (simp add: roundDouble_def Let_def pow2_def)
    with d obtain r :: int where r: "d = of_int r / 36028797018963968" by metis
    with le have "(of_int r :: rat) \<le> 5404319552844595 + 1 / 5" by simp
    then have "r \<le> 5404319552844595" by linarith
    then have "(of_int r :: rat) \<le> 5404319552844595" by (metis of_int_le_iff of_int_numeral)
    with r show ?thesis unfolding D by simp
  qed
qed

lemma double_ge_65_100:
  assumes d: "roundDouble d = d" and ge: "65 / 100 \<le> d"
  shows "roundDouble (65 / 100) \<le> d"
proof -
  note D = roundDouble_65_100
  show ?thesis
  proof (cases "1 \<le> d")
    case True
    then show ?thesis unfolding D by simp
  next
    case False
    from ge have pos: "0 < d" and nz: "d \<noteq> 0" by auto
    have "binaryExponent \<bar>d\<bar> = - 1"
      using False ge pos by (intro binaryExponent_unique) (auto simp: pow2_def)
    then have "roundDouble d = of_int (roundHalfEven (d * 9007199254740992)) / 9007199254740992"
      using nz by (simp add: roundDouble_def Let_def pow2_def)
    with d obtain r :: int where r: "d = of_int r / 9007199254740992" by metis
    with ge have "(5854679515581644 + 4 / 5 :: rat) \<le> of_int r" by simp
    then have "5854679515581645 \<le> r" by linarith
    then have "(5854679515581645 :: rat) \<le> of_int r" by (metis of_int_le_iff of_int_numeral)
    with r show ?thesis unfolding D by simp
  qed
qed

section \<open>Properties of the decision matrix\<close>

text \<open>
  On doubles, the comparisons of \<^const>\<open>makeDecision\<close> with 15/100 and 65/100 are the
  comparisons with the doubles of 0.15 and 0.65.
\<close>

lemma AUTO_APPROVE_AI_MAX_double:
  assumes "roundDouble d = d"
  shows "num_le (Finite d) AUTO_APPROVE_AI_MAX \<longleftrightarrow> d \<le> roundDouble (15 / 100)"
proof
  assume "num_le (Finite d) AUTO_APPROVE_AI_MAX"
  then have "d \<le> 15 / 100" by (simp add: AUTO_APPROVE_AI_MAX_def)
  with assms show "d \<le> roundDouble (15 / 100)" by (rule double_le_15_100)
next
  assume "d \<le> roundDouble (15 / 100)"
  then show "num_le (Finite d) AUTO_APPROVE_AI_MAX"
    unfolding roundDouble_15_100 by (simp add: AUTO_APPROVE_AI_MAX_def)
qed

lemma COMBINED_REJECT_AI_MIN_double:
  assumes "roundDouble d = d"
  shows "num_ge (Finite d) COMBINED_REJECT_AI_MIN \<longleftrightarrow> roundDouble (65 / 100) \<le> d"
proof
  assume "num_ge (Finite d) COMBINED_REJECT_AI_MIN"
  then have "65 / 100 \<le> d" by (simp add: COMBINED_REJECT_AI_MIN_def num_ge_def)
  with assms show "roundDouble (65 / 100) \<le> d" by (rule double_ge_65_100)
next
  assume "roundDouble (65 / 100) \<le> d"
  then show "num_ge (Finite d) COMBINED_REJECT_AI_MIN"
    unfolding roundDouble_65_100 by (simp add: COMBINED_REJECT_AI_MIN_def num_ge_def)
qed

lemma num_le_upper_not_ge:
  "num_le x (Finite a) \<Longrightarrow> a < b \<Longrightarrow> \<not> num_ge x (Finite b)"
  by (cases x) (auto simp: num_ge_def)

text \<open>
  C1 (hard-rule supremacy). Whenever \<open>hardRuleTriggered\<close> is set, \<^const>\<open>makeDecision\<close>
  answers rejected with source rules, for every classifier result (successful or not,
  any score, NaN included) and every trust level.
\<close>

theorem makeDecision_hard_rule_rejects:
  assumes "hardRuleTriggered ruleResult"
  shows "status (makeDecision ruleResult aiResult trustLevel) = Rejected
       \<and> source (makeDecision ruleResult aiResult trustLevel) = Rules"
  using assms by (simp add: makeDecision_def)

theorem makeDecision_hard_rule_rejects_witness:
  "hardRuleTriggered \<lparr>ruleScore = 5, ruleFlags = [''malicious_link''], hardRuleTriggered = True\<rparr>
   \<and> status (makeDecision
        \<lparr>ruleScore = 5, ruleFlags = [''malicious_link''], hardRuleTriggered = True\<rparr>
        \<lparr>aiScore = Finite 0, aiLabel = ''safe'', success = True, error = None\<rparr> 3) = Rejected
   \<and> source (makeDecision
        \<lparr>ruleScore = 5, ruleFlags = [''malicious_link''], hardRuleTriggered = True\<rparr>
        \<lparr>aiScore = Finite 0, aiLabel = ''safe'', success = True, error = None\<rparr> 3) = Rules"
  using makeDecision_hard_rule_rejects
    [of "\<lparr>ruleScore = 5, ruleFlags = [''malicious_link''], hardRuleTriggered = True\<rparr>"
        "\<lparr>aiScore = Finite 0, aiLabel = ''safe'', success = True, error = None\<rparr>" 3]
  by simp

text \<open>
  C2 (classifier-failure floor). A failed classifier result without a hard rule gives
  pending with source fallback, and no failed classifier result is ever approved.
\<close>

theorem makeDecision_classifier_failure_pending:
  assumes "\<not> success aiResult"
  shows "(\<not> hardRuleTriggered ruleResult \<longrightarrow>
            status (makeDecision ruleResult aiResult trustLevel) = Pending
          \<and> source (makeDecision ruleResult aiResult trustLevel) = Fallback)
       \<and> status (makeDecision ruleResult aiResult trustLevel) \<noteq> Approved"
  using assms by (simp add: makeDecision_def)

theorem makeDecision_classifier_failure_pending_witness:
  "\<not> success \<lparr>aiScore = Finite 0, aiLabel = ''unknown'', success = False,
                error = Some ''AI service timeout''\<rparr>
   \<and> \<not> hardRuleTriggered \<lparr>ruleScore = 0, ruleFlags = [], hardRuleTriggered = False\<rparr>
   \<and> status (makeDecision \<lparr>ruleScore = 0, ruleFlags = [], hardRuleTriggered = False\<rparr>
        \<lparr>aiScore = Finite 0, aiLabel = ''unknown'', success = False,
          error = Some ''AI service timeout''\<rparr> 3) = Pending
   \<and> source (makeDecision \<lparr>ruleScore = 0, ruleFlags = [], hardRuleTriggered = False\<rparr>
        \<lparr>aiScore = Finite 0, aiLabel = ''unknown'', success = False,
          error = Some ''AI service timeout''\<rparr> 3) = Fallback"
  using makeDecision_classifier_failure_pending
    [of "\<lparr>aiScore = Finite 0, aiLabel = ''unknown'', success = False,
           error = Some ''AI service timeout''\<rparr>"
        "\<lparr>ruleScore = 0, ruleFlags = [], hardRuleTriggered = False\<rparr>" 3]
  by simp

text \<open>
  C3 (trust-gated auto-approval). With a successful classifier result, no hard rule,
  rule score 0 and a score of at most 0.15, trust levels 2 and 3 are approved with
  source ai, and trust levels 0 and 1 are left pending.
\<close>

theorem makeDecision_trust_gated_approval:
  assumes "success aiResult" and "\<not> hardRuleTriggered ruleResult"
    and "ruleScore ruleResult = 0" and "num_le (aiScore aiResult) (Finite (15 / 100))"
  shows "(trustLevel \<in> {2, 3} \<longrightarrow>
            status (makeDecision ruleResult aiResult trustLevel) = Approved
          \<and> source (makeDecision ruleResult aiResult trustLevel) = Ai)
       \<and> (trustLevel \<in> {0, 1} \<longrightarrow>
            status (makeDecision ruleResult aiResult trustLevel) = Pending)"
proof -
  have low: "\<not> num_ge (aiScore aiResult) AUTO_REJECT_AI_MIN"
    unfolding AUTO_REJECT_AI_MIN_def roundDouble_85_100
    by (rule num_le_upper_not_ge [OF assms(4)]) simp
  have rule: "\<not> ruleScore ruleResult \<ge> COMBINED_REJECT_RULE_MIN"
    using assms(3) by (simp add: COMBINED_REJECT_RULE_MIN_def)
  show ?thesis
    using assms low rule
    by (auto simp: makeDecision_def AUTO_APPROVE_TRUST_MIN_def AUTO_APPROVE_AI_MAX_def)
qed

theorem makeDecision_trust_gated_approval_witness:
  "status (makeDecision \<lparr>ruleScore = 0, ruleFlags = [], hardRuleTriggered = False\<rparr>
       \<lparr>aiScore = Finite (1 / 10), aiLabel = ''safe'', success = True, error = None\<rparr> 2) = Approved
   \<and> source (makeDecision \<lparr>ruleScore = 0, ruleFlags = [], hardRuleTriggered = False\<rparr>
       \<lparr>aiScore = Finite (1 / 10), aiLabel = ''safe'', success = True, error = None\<rparr> 2) = Ai
   \<and> status (makeDecision \<lparr>ruleScore = 0, ruleFlags = [], hardRuleTriggered = False\<rparr>
       \<lparr>aiScore = Finite (1 / 10), aiLabel = ''safe'', success = True, error = None\<rparr> 1) = Pending"
  using makeDecision_trust_gated_approval
    [of "\<lparr>aiScore = Finite (1 / 10), aiLabel = ''safe'', success = True, error = None\<rparr>"
        "\<lparr>ruleScore = 0, ruleFlags = [], hardRuleTriggered = False\<rparr>" 2]
    makeDecision_trust_gated_approval
    [of "\<lparr>aiScore = Finite (1 / 10), aiLabel = ''safe'', success = True, error = None\<rparr>"
        "\<lparr>ruleScore = 0, ruleFlags = [], hardRuleTriggered = False\<rparr>" 1]
  by simp

section \<open>Properties of the trust level\<close>

text \<open>
  C6 (trust level table). \<^const>\<open>calculateTrustLevel\<close> returns one of 0, 1, 2, 3, by
  first-match precedence: manual trust gives 3 whatever the other fields; otherwise no
  approved comment gives 0, exactly one gives 1, two or more give 2 without recent
  rejections and 1 with them.
\<close>

theorem calculateTrustLevel_table:
  "calculateTrustLevel stats \<in> {0, 1, 2, 3}
   \<and> (isManuallyTrusted stats \<longrightarrow> calculateTrustLevel stats = 3)
   \<and> (\<not> isManuallyTrusted stats \<and> approvedCount stats = 0 \<longrightarrow> calculateTrustLevel stats = 0)
   \<and> (\<not> isManuallyTrusted stats \<and> approvedCount stats = 1 \<longrightarrow> calculateTrustLevel stats = 1)
   \<and> (\<not> isManuallyTrusted stats \<and> approvedCount stats \<ge> 2 \<and> \<not> hasRecentRejections stats
        \<longrightarrow> calculateTrustLevel stats = 2)
   \<and> (\<not> isManuallyTrusted stats \<and> approvedCount stats \<ge> 2 \<and> hasRecentRejections stats
        \<longrightarrow> calculateTrustLevel stats = 1)"
  by (simp add: calculateTrustLevel_def)

theorem calculateTrustLevel_table_witness:
  "calculateTrustLevel \<lparr>approvedCount = 0, hasRecentRejections = True, isManuallyTrusted = True\<rparr> = 3
   \<and> calculateTrustLevel \<lparr>approvedCount = 0, hasRecentRejections = False, isManuallyTrusted = False\<rparr> = 0
   \<and> calculateTrustLevel \<lparr>approvedCount = 1, hasRecentRejections = True, isManuallyTrusted = False\<rparr> = 1
   \<and> calculateTrustLevel \<lparr>approvedCount = 7, hasRecentRejections = False, isManuallyTrusted = False\<rparr> = 2
   \<and> calculateTrustLevel \<lparr>approvedCount = 5, hasRecentRejections = True, isManuallyTrusted = False\<rparr> = 1"
  using
    calculateTrustLevel_table
      [of "\<lparr>approvedCount = 0, hasRecentRejections = True, isManuallyTrusted = True\<rparr>"]
    calculateTrustLevel_table
      [of "\<lparr>approvedCount = 0, hasRecentRejections = False, isManuallyTrusted = False\<rparr>"]
    calculateTrustLevel_table
      [of "\<lparr>approvedCount = 1, hasRecentRejections = True, isManuallyTrusted = False\<rparr>"]
    calculateTrustLevel_table
      [of "\<lparr>approvedCount = 7, hasRecentRejections = False, isManuallyTrusted = False\<rparr>"]
    calculateTrustLevel_table
      [of "\<lparr>approvedCount = 5, hasRecentRejections = True, isManuallyTrusted = False\<rparr>"]
  by simp

section \<open>Properties of the rule detector set\<close>

lemma set_dedupe: "set (dedupe xs) = set xs"
  by (induction xs rule: dedupe.induct) auto

lemma distinct_dedupe: "distinct (dedupe xs)"
  by (induction xs rule: dedupe.induct) (auto simp: set_dedupe)

lemma dedupe_distinct: "distinct xs \<Longrightarrow> dedupe xs = xs"
proof (induction xs)
  case Nil
  show ?case by simp
next
  case (Cons x xs)
  then have "filter (\<lambda>y. y \<noteq> x) xs = xs"
    by (auto intro: filter_True)
  with Cons show ?case by simp
qed

lemma fold_flagScore: "fold (\<lambda>flag score. score + f flag) xs (a::int) = a + sum_list (map f xs)"
  by (induction xs arbitrary: a) auto

lemma scanRecentContents_cases:
  "scanRecentContents n rs \<in> {[], [''duplicate_content''], [''similar_content'']}"
  by (induction rs) (auto simp: Let_def)

lemma checkDuplicateContent_cases:
  "checkDuplicateContent c rs \<in> {[], [''duplicate_content''], [''similar_content'']}"
  unfolding checkDuplicateContent_def by (rule scanRecentContents_cases)

lemma subseq_checkMaliciousLinks:
  "subseq (checkMaliciousLinks rt content) [''malicious_link'', ''excessive_links'']"
  by (simp add: checkMaliciousLinks_def Let_def)

lemma subseq_checkProfanity: "subseq (checkProfanity rt content) [''profanity'']"
  by (simp add: checkProfanity_def)

lemma subseq_checkSpamPatterns: "subseq (checkSpamPatterns rt content) [''spam_pattern'']"
  by (simp add: checkSpamPatterns_def)

lemma subseq_checkExcessiveCaps: "subseq (checkExcessiveCaps content) [''excessive_caps'']"
  by (simp add: checkExcessiveCaps_def Let_def)

lemma subseq_checkDuplicateContent:
  "subseq (checkDuplicateContent content recentContents) [''duplicate_content'', ''similar_content'']"
  using checkDuplicateContent_cases [of content recentContents] by auto

lemma subseq_allFlags:
  "subseq (allFlags rt content recentContents)
     ([''malicious_link'', ''excessive_links''] @ [''profanity''] @ [''spam_pattern'']
      @ [''excessive_caps''] @ [''duplicate_content'', ''similar_content''])"
  unfolding allFlags_def
  by (intro list_emb_append_mono subseq_checkMaliciousLinks subseq_checkProfanity
      subseq_checkSpamPatterns subseq_checkExcessiveCaps subseq_checkDuplicateContent)

lemma subseq_distinct: "subseq xs ys \<Longrightarrow> distinct ys \<Longrightarrow> distinct xs"
proof (induction rule: list_emb.induct)
  case (list_emb_Nil ys)
  show ?case by simp
next
  case (list_emb_Cons xs ys y)
  then show ?case by simp
next
  case (list_emb_Cons2 x y xs ys)
  then have "x \<notin> set ys" "distinct xs" by auto
  moreover from list_emb_Cons2.hyps(2) have "set xs \<subseteq> set ys"
    by (auto elim: list_emb_set)
  ultimately show ?case by auto
qed

lemma distinct_allFlags: "distinct (allFlags rt content recentContents)"
  by (rule subseq_distinct [OF subseq_allFlags]) simp

lemma flagScore_spec: "flagScore = spec_flagWeight"
  by (rule ext) (simp add: flagScore_def flagScores_def spec_flagWeight_def)

lemma flagScore_pos: "0 < flagScore flag"
  by (simp add: flagScore_spec spec_flagWeight_def)

lemma ruleFlags_checkHardRules:
  "ruleFlags (checkHardRules rt content recentContents) = allFlags rt content recentContents"
  by (simp add: checkHardRules_def Let_def dedupe_distinct [OF distinct_allFlags])

lemma ruleScore_checkHardRules:
  "ruleScore (checkHardRules rt content recentContents)
     = sum_list (map flagScore (allFlags rt content recentContents))"
  by (simp add: checkHardRules_def Let_def fold_flagScore)

lemma hardRuleTriggered_checkHardRules:
  "hardRuleTriggered (checkHardRules rt content recentContents)
     = (''malicious_link'' \<in> set (allFlags rt content recentContents)
        \<or> ''duplicate_content'' \<in> set (allFlags rt content recentContents))"
  by (auto simp: checkHardRules_def Let_def list_ex_iff hardRuleFlags_def)

text \<open>
  C4 (rule scoring). For every content and recent history, and whatever the regular
  expression engine matches: \<open>ruleScore\<close> is the sum of the fixed weights of the flags
  returned, \<open>ruleFlags\<close> has no duplicates and is exactly the list of flags the five
  detectors raised, and \<open>hardRuleTriggered\<close> holds if and only if malicious_link or
  duplicate_content is among them.
\<close>

theorem checkHardRules_scoring:
  "ruleScore (checkHardRules rt content recentContents)
     = sum_list (map spec_flagWeight (ruleFlags (checkHardRules rt content recentContents)))
   \<and> ruleFlags (checkHardRules rt content recentContents) = allFlags rt content recentContents
   \<and> distinct (ruleFlags (checkHardRules rt content recentContents))
   \<and> hardRuleTriggered (checkHardRules rt content recentContents)
       = (''malicious_link'' \<in> set (ruleFlags (checkHardRules rt content recentContents))
          \<or> ''duplicate_content'' \<in> set (ruleFlags (checkHardRules rt content recentContents)))"
  by (simp add: ruleFlags_checkHardRules ruleScore_checkHardRules
      hardRuleTriggered_checkHardRules distinct_allFlags flagScore_spec)

theorem checkHardRules_scoring_witness:
  "ruleScore (checkHardRules
       \<lparr>regexp_test = (\<lambda>pattern s. pattern = BitLy), string_match = (\<lambda>s pattern. []),
        json_parse = (\<lambda>s. None)\<rparr> ''Check out bit.ly/abc123'' []) = 5
   \<and> ruleFlags (checkHardRules
       \<lparr>regexp_test = (\<lambda>pattern s. pattern = BitLy), string_match = (\<lambda>s pattern. []),
        json_parse = (\<lambda>s. None)\<rparr> ''Check out bit.ly/abc123'' []) = [''malicious_link'']
   \<and> hardRuleTriggered (checkHardRules
       \<lparr>regexp_test = (\<lambda>pattern s. pattern = BitLy), string_match = (\<lambda>s pattern. []),
        json_parse = (\<lambda>s. None)\<rparr> ''Check out bit.ly/abc123'' [])"
proof -
  let ?rt = "\<lparr>regexp_test = (\<lambda>pattern s. pattern = BitLy), string_match = (\<lambda>s pattern. []),
        json_parse = (\<lambda>s. None)\<rparr>"
  have f: "allFlags ?rt ''Check out bit.ly/abc123'' [] = [''malicious_link'']"
    by code_simp
  from checkHardRules_scoring [of ?rt "''Check out bit.ly/abc123''" "[]"] f
  show ?thesis by (simp add: spec_flagWeight_def)
qed

text \<open>
  C5 (duplicate-check traversal). The claim is that an entry of the recent history with
  the same normalization as the content always gives the flag duplicate_content,
  whatever comes before it. The loop also stops at the first entry that is more than
  0.8 similar: here the first entry differs from the content by a two-letter word, which
  the similarity ignores, and the exact match behind it is never compared.
\<close>

theorem checkDuplicateContent_misses_later_duplicate:
  "normalizeContent ''Hello, world!'' = normalizeContent ''hello world''
   \<and> checkDuplicateContent ''hello world'' [''hello world ok'', ''Hello, world!'']
       = [''similar_content'']"
  by code_simp


text \<open>
  What the loop does guarantee: duplicate_content is raised exactly when some entry is an
  exact match and no entry before it is more than 0.8 similar.
\<close>

lemma scanRecentContents_duplicate_iff:
  "''duplicate_content'' \<in> set (scanRecentContents normalized recentContents) \<longleftrightarrow>
     (\<exists>before recent rest. recentContents = before @ recent # rest
        \<and> normalizeContent recent = normalized
        \<and> (\<forall>earlier \<in> set before. normalizeContent earlier \<noteq> normalized
              \<and> \<not> calculateSimilarity normalized (normalizeContent earlier) > roundDouble (8 / 10)))"
proof (induction recentContents)
  case Nil
  show ?case by simp
next
  case (Cons r rs)
  show ?case
  proof (cases "normalized = normalizeContent r")
    case True
    have "\<exists>before recent rest. r # rs = before @ recent # rest
        \<and> normalizeContent recent = normalized
        \<and> (\<forall>earlier \<in> set before. normalizeContent earlier \<noteq> normalized
              \<and> \<not> calculateSimilarity normalized (normalizeContent earlier) > roundDouble (8 / 10))"
      using True by (intro exI [of _ "[]"] exI [of _ r] exI [of _ rs]) simp
    with True show ?thesis by (simp add: Let_def)
  next
    case False
    show ?thesis
    proof (cases "calculateSimilarity normalized (normalizeContent r) > roundDouble (8 / 10)")
      case True
      have "\<not> (\<exists>before recent rest. r # rs = before @ recent # rest
        \<and> normalizeContent recent = normalized
        \<and> (\<forall>earlier \<in> set before. normalizeContent earlier \<noteq> normalized
              \<and> \<not> calculateSimilarity normalized (normalizeContent earlier) > roundDouble (8 / 10)))"
      proof
        assume "\<exists>before recent rest. r # rs = before @ recent # rest
          \<and> normalizeContent recent = normalized
          \<and> (\<forall>earlier \<in> set before. normalizeContent earlier \<noteq> normalized
              \<and> \<not> calculateSimilarity normalized (normalizeContent earlier) > roundDouble (8 / 10))"
        then obtain before recent rest where s: "r # rs = before @ recent # rest"
          and n: "normalizeContent recent = normalized"
          and e: "\<forall>earlier \<in> set before. normalizeContent earlier \<noteq> normalized
              \<and> \<not> calculateSimilarity normalized (normalizeContent earlier) > roundDouble (8 / 10)"
          by blast
        show False
        proof (cases before)
          case Nil
          with s n False show False by simp
        next
          case (Cons b bs)
          with s have "b = r" by simp
          with Cons e True show False by simp
        qed
      qed
      with False True show ?thesis by (simp add: Let_def)
    next
      case sim: False
      have "(\<exists>before recent rest. r # rs = before @ recent # rest
        \<and> normalizeContent recent = normalized
        \<and> (\<forall>earlier \<in> set before. normalizeContent earlier \<noteq> normalized
              \<and> \<not> calculateSimilarity normalized (normalizeContent earlier) > roundDouble (8 / 10)))
        \<longleftrightarrow> (\<exists>before recent rest. rs = before @ recent # rest
        \<and> normalizeContent recent = normalized
        \<and> (\<forall>earlier \<in> set before. normalizeContent earlier \<noteq> normalized
              \<and> \<not> calculateSimilarity normalized (normalizeContent earlier) > roundDouble (8 / 10)))"
        (is "?L \<longleftrightarrow> ?R")
      proof
        assume ?L
        then obtain before recent rest where s: "r # rs = before @ recent # rest"
          and n: "normalizeContent recent = normalized"
          and e: "\<forall>earlier \<in> set before. normalizeContent earlier \<noteq> normalized
              \<and> \<not> calculateSimilarity normalized (normalizeContent earlier) > roundDouble (8 / 10)"
          by blast
        show ?R
        proof (cases before)
          case Nil
          with s n False show ?thesis by simp
        next
          case (Cons b bs)
          with s have "rs = bs @ recent # rest" by simp
          with n e Cons show ?thesis by auto
        qed
      next
        assume ?R
        then obtain before recent rest where s: "rs = before @ recent # rest"
          and n: "normalizeContent recent = normalized"
          and e: "\<forall>earlier \<in> set before. normalizeContent earlier \<noteq> normalized
              \<and> \<not> calculateSimilarity normalized (normalizeContent earlier) > roundDouble (8 / 10)"
          by blast
        from s have "r # rs = (r # before) @ recent # rest" by simp
        moreover from e False sim
        have "\<forall>earlier \<in> set (r # before). normalizeContent earlier \<noteq> normalized
              \<and> \<not> calculateSimilarity normalized (normalizeContent earlier) > roundDouble (8 / 10)"
          by auto
        ultimately show ?L using n by blast
      qed
      with Cons.IH False sim show ?thesis by (simp add: Let_def)
    qed
  qed
qed

section \<open>Properties of the classifier adapter and the pipeline\<close>

lemma sum_list_pos_eq_0:
  "(\<And>x. 0 < f x) \<Longrightarrow> sum_list (map f xs) = (0::int) \<Longrightarrow> xs = []"
proof (induction xs)
  case Nil
  show ?case by simp
next
  case (Cons x xs)
  have "0 \<le> sum_list (map f xs)"
    by (rule sum_list_nonneg) (use Cons.prems(1) in \<open>auto intro: less_imp_le\<close>)
  moreover have "0 < f x" by (rule Cons.prems(1))
  ultimately have "0 < sum_list (map f (x # xs))" by simp
  with Cons.prems(2) show ?case by simp
qed

lemma ruleScore_0_no_flags:
  assumes "ruleScore (checkHardRules rt content recentContents) = 0"
  shows "allFlags rt content recentContents = []"
  using assms unfolding ruleScore_checkHardRules
  by (rule sum_list_pos_eq_0 [rotated]) (rule flagScore_pos)

lemma addPatternScore_bounds:
  assumes "0 \<le> snd pw" and "0 \<le> score"
  shows "0 \<le> addPatternScore rt content pw score"
proof -
  have "0 \<le> double_mul (of_nat n) (snd pw)" for n
    unfolding double_mul_def using assms(1) by (intro roundDouble_nonneg mult_nonneg_nonneg) simp_all
  moreover have "0 \<le> roundDouble (3 / 10)"
    by (rule roundDouble_nonneg) simp
  ultimately have "0 \<le> double_add score (min (double_mul (of_nat n) (snd pw)) (roundDouble (3 / 10)))" for n
    unfolding double_add_def using assms(2) by (intro roundDouble_nonneg add_nonneg_nonneg) simp_all
  then show ?thesis
    using assms(2) by (simp add: addPatternScore_def Let_def)
qed

lemma fold_addPatternScore_nonneg:
  "\<forall>pw \<in> set ps. 0 \<le> snd pw \<Longrightarrow> 0 \<le> score
   \<Longrightarrow> 0 \<le> fold (addPatternScore rt content) ps score"
  by (induction ps arbitrary: score) (auto simp: addPatternScore_bounds)

lemma heuristic_score:
  "\<exists>q. aiScore (checkWithHeuristics rt content) = Finite q \<and> 0 \<le> q \<and> q \<le> 1"
proof -
  have "0 \<le> fold (addPatternScore rt content) suspiciousPatterns 0"
    by (rule fold_addPatternScore_nonneg) (simp_all add: suspiciousPatterns_def roundDouble_nonneg)
  then show ?thesis
    by (simp add: checkWithHeuristics_def Let_def)
qed

text \<open>
  The heuristic score is a double, so its comparison with 15/100 in
  \<^const>\<open>makeDecision\<close> is the comparison with the double of 0.15.
\<close>

lemma fold_addPatternScore_double:
  "roundDouble score = score
   \<Longrightarrow> roundDouble (fold (addPatternScore rt content) ps score)
       = fold (addPatternScore rt content) ps score"
  by (induction ps arbitrary: score)
     (simp_all add: addPatternScore_def Let_def double_add_def roundDouble_idem)

lemma roundDouble_1: "roundDouble 1 = 1"
  by code_simp

lemma checkWithHeuristics_double:
  "\<exists>q. aiScore (checkWithHeuristics rt content) = Finite q \<and> roundDouble q = q"
proof -
  have z: "roundDouble 0 = 0" by (simp add: roundDouble_def)
  have "roundDouble (min (fold (addPatternScore rt content) suspiciousPatterns 0) 1)
        = min (fold (addPatternScore rt content) suspiciousPatterns 0) 1"
    using fold_addPatternScore_double [OF z, of rt content suspiciousPatterns] roundDouble_1
    by (auto simp: min_def)
  then show ?thesis
    by (simp add: checkWithHeuristics_def Let_def)
qed

lemma checkWithHeuristics_approval_threshold:
  "num_le (aiScore (checkWithHeuristics rt content)) AUTO_APPROVE_AI_MAX
   \<longleftrightarrow> num_le (aiScore (checkWithHeuristics rt content)) (Finite (roundDouble (15 / 100)))"
proof -
  obtain q where q: "aiScore (checkWithHeuristics rt content) = Finite q" "roundDouble q = q"
    using checkWithHeuristics_double by blast
  show ?thesis
    using AUTO_APPROVE_AI_MAX_double [OF q(2)] by (simp add: q(1))
qed

lemma success_checkWithHeuristics: "success (checkWithHeuristics rt content)"
  by (simp add: checkWithHeuristics_def Let_def)

text \<open>
  C9 (heuristic fallback reaches verdicts). \<^const>\<open>checkWithHeuristics\<close> always
  succeeds with a score between 0 and 1. Without a classifier binding \<^const>\<open>moderate\<close>
  decides on the heuristic result, so its source is never fallback, and a comment with
  trust level at least 2, rule score 0 and heuristic score at most 0.15 is approved
  with source ai.
\<close>

theorem heuristic_fallback_reaches_verdict:
  "success (checkWithHeuristics rt content)
   \<and> num_le (Finite 0) (aiScore (checkWithHeuristics rt content))
   \<and> num_le (aiScore (checkWithHeuristics rt content)) (Finite 1)
   \<and> moderate rt content trustLevel recentContents None
       = Some (makeDecision (checkHardRules rt content recentContents)
                 (checkWithHeuristics rt content) trustLevel)
   \<and> source (makeDecision (checkHardRules rt content recentContents)
                 (checkWithHeuristics rt content) trustLevel) \<noteq> Fallback
   \<and> (trustLevel \<ge> 2 \<and> ruleScore (checkHardRules rt content recentContents) = 0
        \<and> num_le (aiScore (checkWithHeuristics rt content)) (Finite (15 / 100))
       \<longrightarrow> status (makeDecision (checkHardRules rt content recentContents)
                 (checkWithHeuristics rt content) trustLevel) = Approved
         \<and> source (makeDecision (checkHardRules rt content recentContents)
                 (checkWithHeuristics rt content) trustLevel) = Ai)"
proof -
  obtain q where q: "aiScore (checkWithHeuristics rt content) = Finite q" "0 \<le> q" "q \<le> 1"
    using heuristic_score by blast
  have s: "success (checkWithHeuristics rt content)" by (rule success_checkWithHeuristics)
  have nf: "source (makeDecision (checkHardRules rt content recentContents)
                 (checkWithHeuristics rt content) trustLevel) \<noteq> Fallback"
    using s by (simp add: makeDecision_def)
  have ap: "status (makeDecision (checkHardRules rt content recentContents)
                 (checkWithHeuristics rt content) trustLevel) = Approved
         \<and> source (makeDecision (checkHardRules rt content recentContents)
                 (checkWithHeuristics rt content) trustLevel) = Ai"
    if t: "trustLevel \<ge> 2" and r: "ruleScore (checkHardRules rt content recentContents) = 0"
      and a: "num_le (aiScore (checkWithHeuristics rt content)) (Finite (15 / 100))"
  proof -
    have "allFlags rt content recentContents = []" by (rule ruleScore_0_no_flags [OF r])
    then have "\<not> hardRuleTriggered (checkHardRules rt content recentContents)"
      by (simp add: hardRuleTriggered_checkHardRules)
    then show ?thesis
      using s t r a
      by (simp add: makeDecision_def AUTO_APPROVE_TRUST_MIN_def AUTO_APPROVE_AI_MAX_def)
  qed
  show ?thesis
    using s q nf ap by (simp add: moderate_def Let_def)
qed

theorem heuristic_fallback_reaches_verdict_witness:
  "ruleScore (checkHardRules
       \<lparr>regexp_test = (\<lambda>pattern s. False),
        string_match = (\<lambda>s pattern. if pattern = Price then [''$5''] else []),
        json_parse = (\<lambda>s. None)\<rparr> ''Only $5 for this'' []) = 0
   \<and> aiScore (checkWithHeuristics
       \<lparr>regexp_test = (\<lambda>pattern s. False),
        string_match = (\<lambda>s pattern. if pattern = Price then [''$5''] else []),
        json_parse = (\<lambda>s. None)\<rparr> ''Only $5 for this'')
       = Finite (5404319552844595 / 36028797018963968)
   \<and> status (makeDecision
       (checkHardRules
          \<lparr>regexp_test = (\<lambda>pattern s. False),
           string_match = (\<lambda>s pattern. if pattern = Price then [''$5''] else []),
           json_parse = (\<lambda>s. None)\<rparr> ''Only $5 for this'' [])
       (checkWithHeuristics
          \<lparr>regexp_test = (\<lambda>pattern s. False),
           string_match = (\<lambda>s pattern. if pattern = Price then [''$5''] else []),
           json_parse = (\<lambda>s. None)\<rparr> ''Only $5 for this'') 2) = Approved"
proof -
  let ?rt = "\<lparr>regexp_test = (\<lambda>pattern s. False),
              string_match = (\<lambda>s pattern. if pattern = Price then [''$5''] else []),
              json_parse = (\<lambda>s. None)\<rparr>"
  have r: "ruleScore (checkHardRules ?rt ''Only $5 for this'' []) = 0"
    by code_simp
  have a: "aiScore (checkWithHeuristics ?rt ''Only $5 for this'')
             = Finite (5404319552844595 / 36028797018963968)"
    by code_simp
  from heuristic_fallback_reaches_verdict [of ?rt "''Only $5 for this''" 2 "[]"] r a
  show ?thesis by simp
qed

text \<open>
  The sums are sums of doubles. One sales word and one link word give
  0.1 + 0.05 = 0.15000000000000002, which is above the approval threshold: the comment
  of a trusted user stays pending. Three sales words, one link word, three runs of
  marks and one urgency word give 0.8499999999999999, one unit in the last place below
  the rejection threshold: pending as well.
\<close>

lemma checkWithHeuristics_sales_and_link:
  "aiScore (checkWithHeuristics
       \<lparr>regexp_test = (\<lambda>pattern s. False),
        string_match = (\<lambda>s pattern. if pattern = SalesWord then [''buy'']
                                      else if pattern = LinkWord then [''www''] else []),
        json_parse = (\<lambda>s. None)\<rparr> ''buy www'')
     = Finite (1351079888211149 / 9007199254740992)
   \<and> roundDouble (15 / 100) < 1351079888211149 / 9007199254740992
   \<and> map_option status (moderate
       \<lparr>regexp_test = (\<lambda>pattern s. False),
        string_match = (\<lambda>s pattern. if pattern = SalesWord then [''buy'']
                                      else if pattern = LinkWord then [''www''] else []),
        json_parse = (\<lambda>s. None)\<rparr> ''buy www'' 2 [] None) = Some Pending
   \<and> map_option source (moderate
       \<lparr>regexp_test = (\<lambda>pattern s. False),
        string_match = (\<lambda>s pattern. if pattern = SalesWord then [''buy'']
                                      else if pattern = LinkWord then [''www''] else []),
        json_parse = (\<lambda>s. None)\<rparr> ''buy www'' 2 [] None) = Some Ai"
  by code_simp

lemma checkWithHeuristics_below_rejection:
  "aiScore (checkWithHeuristics
       \<lparr>regexp_test = (\<lambda>pattern s. False),
        string_match = (\<lambda>s pattern.
           if pattern = SalesWord then [''buy'', ''sell'', ''free'']
           else if pattern = LinkWord then [''www'']
           else if pattern = Shouting then [''!!!'', ''???'', ''!?!'']
           else if pattern = Urgency then [''urgent''] else []),
        json_parse = (\<lambda>s. None)\<rparr> ''buy sell free www !!! ??? !?! urgent'')
     = Finite (3828059683264921 / 4503599627370496)
   \<and> 3828059683264921 / 4503599627370496 < roundDouble (85 / 100)
   \<and> map_option status (moderate
       \<lparr>regexp_test = (\<lambda>pattern s. False),
        string_match = (\<lambda>s pattern.
           if pattern = SalesWord then [''buy'', ''sell'', ''free'']
           else if pattern = LinkWord then [''www'']
           else if pattern = Shouting then [''!!!'', ''???'', ''!?!'']
           else if pattern = Urgency then [''urgent''] else []),
        json_parse = (\<lambda>s. None)\<rparr> ''buy sell free www !!! ??? !?! urgent'' 0 [] None)
     = Some Pending"
  by code_simp

text \<open>The adapter answers when the call does, whenever that is.\<close>

lemma checkWithEnhancedAI_elapsed:
  assumes "run binding ''@cf/meta/llama-3.2-1b-instruct''
             \<lparr>prompt = ModerationPrompt content, max_tokens = 200,
              temperature = roundDouble (1 / 10)\<rparr>
           = Resolves t response"
  shows "checkWithEnhancedAI rt content (Some binding)
         = Some \<lparr>elapsedMs = t, aborted = (AI_TIMEOUT_MS < t),
                 result = responseResult rt response\<rparr>"
  using assms by (simp add: checkWithEnhancedAI_def)

text \<open>Nothing that the adapter makes of a response is a timeout failure.\<close>

text \<open>
  An object whose \<^verbatim>\<open>response\<close> is not a string takes the parsing branch and fails
  there.
\<close>

lemma responseResult_not_a_string:
  "responseResult rt (ResponseObject None) = failedCheck ''Failed to parse AI response''
   \<and> responseResult rt ResponseOther = failedCheck ''Invalid AI response format''"
  by (simp add: responseResult_def)

lemma responseResult_no_timeout:
  "error (responseResult rt response) \<noteq> Some ''AI service timeout''"
  by (simp add: responseResult_def failedCheck_def split: AiResponse.splits option.splits)

text \<open>
  C10 (classifier timeout bound). The claim is that the call is abandoned after at most
  five seconds with a timeout failure. The adapter awaits the promise of
  \<^verbatim>\<open>ai.run\<close> itself, and nothing connects its timer to that promise: a call that
  never settles is never answered, and a call that settles after six seconds is
  answered after six seconds with what its response gives, which is never the timeout
  failure; the controller's flag is set and unread.
\<close>

theorem checkWithEnhancedAI_not_abandoned:
  "checkWithEnhancedAI rt content (Some \<lparr>run = (\<lambda>model inputs. StaysPending)\<rparr>) = None
   \<and> checkWithEnhancedAI rt content
        (Some \<lparr>run = (\<lambda>model inputs. Resolves 6000 response)\<rparr>)
       = Some \<lparr>elapsedMs = 6000, aborted = True, result = responseResult rt response\<rparr>
   \<and> error (responseResult rt response) \<noteq> Some ''AI service timeout''"
  by (simp add: checkWithEnhancedAI_def AI_TIMEOUT_MS_def responseResult_no_timeout)

text \<open>
  For instance, a classifier that answers with a clean verdict after six seconds is
  taken at its word (the runtime here parses that one answer and matches no pattern).
\<close>

lemma checkWithEnhancedAI_late_success:
  \<open>checkWithEnhancedAI
     \<lparr>regexp_test = (\<lambda>pattern s. False), string_match = (\<lambda>s pattern. []),
      json_parse = (\<lambda>s. if s = ''{"spam":0,"toxic":0,"inappropriate":0,"overall":0,"label":"safe"}''
                          then Some (JObject [(''spam'', JNumber (Finite 0)), (''toxic'', JNumber (Finite 0)),
                                 (''inappropriate'', JNumber (Finite 0)), (''overall'', JNumber (Finite 0)),
                                 (''label'', JString ''safe'')])
                          else None)\<rparr>
     ''Nice post''
     (Some \<lparr>run = (\<lambda>model inputs. Resolves 6000
        (ResponseString ''Sure: {"spam":0,"toxic":0,"inappropriate":0,"overall":0,"label":"safe"}''))\<rparr>)
   = Some \<lparr>elapsedMs = 6000, aborted = True,
       result = \<lparr>aiScore = Finite 0, aiLabel = ''safe'', success = True, error = None,
                  categories = \<lparr>spam = Finite 0, toxic = Finite 0, inappropriate = Finite 0\<rparr>\<rparr>\<rparr>\<close>
  by code_simp

section \<open>Properties of the comment tree builder\<close>

subsection \<open>The store after the two passes\<close>

lemma truncate_treeNode_children:
  "CommentWithUser.truncate ((treeNode c)\<lparr>children := ks\<rparr>) = c"
  by (simp add: treeNode_def CommentWithUser.truncate_def CommentWithUser.extend_def
      CommentTree.fields_def)

lemma treeNode_fields:
  "comment_id (treeNode c) = comment_id c" "comment_status (treeNode c) = comment_status c"
  "children (treeNode c) = []"
  by (simp_all add: treeNode_def CommentWithUser.extend_def CommentTree.fields_def)

lemma fold_setNode_notin:
  "i \<notin> comment_id ` set cs \<Longrightarrow> fold setNode cs m i = m i"
  by (induction cs arbitrary: m) (auto simp: setNode_def)

lemma fold_setNode_Some:
  "fold setNode cs m i = Some n \<Longrightarrow>
   m i = Some n \<or> (\<exists>c \<in> set cs. n = treeNode c \<and> comment_id c = i)"
proof (induction cs arbitrary: m)
  case Nil
  then show ?case by simp
next
  case (Cons a cs)
  from Cons.IH [of "setNode a m"] Cons.prems
  show ?case by (auto simp: setNode_def split: if_splits)
qed

lemma fold_setNode_in:
  "i \<in> comment_id ` set cs \<Longrightarrow> fold setNode cs m i \<noteq> None"
proof (induction cs arbitrary: m)
  case Nil
  then show ?case by simp
next
  case (Cons a cs)
  show ?case
  proof (cases "i \<in> comment_id ` set cs")
    case True
    then show ?thesis using Cons.IH by simp
  next
    case False
    with Cons.prems have "i = comment_id a" by auto
    with False show ?thesis
      by (simp add: fold_setNode_notin) (simp add: setNode_def)
  qed
qed

lemma firstPass_Some:
  "firstPass A i = Some n \<Longrightarrow> \<exists>c \<in> set A. n = treeNode c \<and> comment_id c = i"
  unfolding firstPass_def using fold_setNode_Some [of A Map.empty i n] by simp

lemma firstPass_None_iff: "firstPass A i = None \<longleftrightarrow> i \<notin> comment_id ` set A"
  unfolding firstPass_def
  using fold_setNode_in [of i A Map.empty] fold_setNode_notin [of i A Map.empty]
  by auto

lemma firstPass_distinct:
  assumes "distinct (map comment_id A)" and "c \<in> set A"
  shows "firstPass A (comment_id c) = Some (treeNode c)"
proof -
  from assms(2) have "firstPass A (comment_id c) \<noteq> None"
    by (simp add: firstPass_None_iff)
  then obtain n where n: "firstPass A (comment_id c) = Some n" by auto
  then obtain c' where c': "c' \<in> set A" "n = treeNode c'" "comment_id c' = comment_id c"
    using firstPass_Some by blast
  from assms c'(1,3) have "c' = c"
    by (metis distinct_map inj_onD)
  with n c'(2) show ?thesis by simp
qed

lemma storeAfter_Nil: "storeAfter A [] = firstPass A"
proof (rule ext)
  fix i
  show "storeAfter A [] i = firstPass A i"
  proof (cases "firstPass A i")
    case None
    then show ?thesis by (simp add: storeAfter_def)
  next
    case (Some n)
    then obtain c where "n = treeNode c" using firstPass_Some by blast
    with Some show ?thesis
      by (simp add: storeAfter_def kids_def treeNode_def CommentWithUser.extend_def
          CommentTree.fields_def)
  qed
qed

lemma attachedTo_cases:
  "attachedTo A c = Some p \<longleftrightarrow> parentId c = Some p \<and> p \<noteq> 0 \<and> firstPass A p \<noteq> None"
  "attachedTo A c = None \<longleftrightarrow>
     parentId c = None \<or> (\<exists>p. parentId c = Some p \<and> (p = 0 \<or> firstPass A p = None))"
  by (auto simp: attachedTo_def firstPass_None_iff split: option.splits)

lemma secondPassStep_storeAfter:
  "secondPassStep c \<lparr>commentMap = storeAfter A Q, rootComments = orphans A Q\<rparr>
   = \<lparr>commentMap = storeAfter A (Q @ [c]), rootComments = orphans A (Q @ [c])\<rparr>"
proof (cases "attachedTo A c")
  case None
  then have k: "\<And>i. kids A (Q @ [c]) i = kids A Q i" and o: "orphans A (Q @ [c]) = orphans A Q @ [comment_id c]"
    by (simp_all add: kids_def orphans_def)
  have s: "storeAfter A (Q @ [c]) = storeAfter A Q"
    by (rule ext) (simp add: storeAfter_def k)
  from None show ?thesis
    unfolding attachedTo_cases
    by (auto simp: secondPassStep_def pushRoot_def s o storeAfter_def)
next
  case (Some p)
  then have par: "parentId c = Some p" "p \<noteq> 0" "firstPass A p \<noteq> None"
    unfolding attachedTo_cases by auto
  then obtain n where n: "firstPass A p = Some n" by auto
  from Some have o: "orphans A (Q @ [c]) = orphans A Q"
    by (simp add: orphans_def)
  from Some have k: "\<And>i. kids A (Q @ [c]) i = (if i = p then kids A Q i @ [comment_id c] else kids A Q i)"
    by (simp add: kids_def)
  have s: "storeAfter A (Q @ [c])
      = (storeAfter A Q)(p \<mapsto> n\<lparr>children := kids A Q p @ [comment_id c]\<rparr>)"
    by (rule ext) (simp add: storeAfter_def k n)
  show ?thesis
    using par n by (simp add: secondPassStep_def s o storeAfter_def)
qed

lemma fold_secondPassStep:
  "fold secondPassStep P \<lparr>commentMap = storeAfter A Q, rootComments = orphans A Q\<rparr>
   = \<lparr>commentMap = storeAfter A (Q @ P), rootComments = orphans A (Q @ P)\<rparr>"
proof (induction P arbitrary: Q)
  case Nil
  show ?case by simp
next
  case (Cons c P)
  show ?case
    using Cons.IH [of "Q @ [c]"] by (simp add: secondPassStep_storeAfter)
qed

lemma buildCommentTree_eq:
  "buildCommentTree cs =
     \<lparr>commentMap = storeAfter (filterApprovedComments cs) (filterApprovedComments cs),
      rootComments = orphans (filterApprovedComments cs) (filterApprovedComments cs)\<rparr>"
proof -
  let ?A = "filterApprovedComments cs"
  have "fold secondPassStep ?A \<lparr>commentMap = storeAfter ?A [], rootComments = orphans ?A []\<rparr>
        = \<lparr>commentMap = storeAfter ?A ([] @ ?A), rootComments = orphans ?A ([] @ ?A)\<rparr>"
    by (rule fold_secondPassStep)
  then show ?thesis
    by (simp add: buildCommentTree_def Let_def storeAfter_Nil orphans_def)
qed

lemma storeAfter_approved:
  assumes "storeAfter (filterApprovedComments cs) Q i = Some n"
  shows "comment_status n = Approved"
proof -
  from assms obtain m where m: "firstPass (filterApprovedComments cs) i = Some m"
    and n: "n = m\<lparr>children := kids (filterApprovedComments cs) Q i\<rparr>"
    by (auto simp: storeAfter_def)
  from m obtain c where "c \<in> set (filterApprovedComments cs)" "m = treeNode c"
    using firstPass_Some by blast
  then show ?thesis
    using n by (simp add: filterApprovedComments_def treeNode_fields)
qed

subsection \<open>Walks of a store\<close>

lemma comment_id_truncate: "comment_id (CommentWithUser.truncate n) = comment_id n"
  by (simp add: CommentWithUser.truncate_def)

lemma traverse_Nil: "traverse h [] = Some []"
  by (subst traverse.simps) simp

lemma traverse_Cons:
  "traverse h (r # rest) =
     (case h r of None \<Rightarrow> None
      | Some n \<Rightarrow> Option.bind (traverse h (children n)) (\<lambda>below.
                  Option.bind (traverse h rest) (\<lambda>after.
                  Some (CommentWithUser.truncate n # below @ after))))"
  by (subst traverse.simps) simp

lemma countTreeComments_Nil: "countTreeComments h [] = Some 0"
  by (subst countTreeComments.simps) simp

lemma countTreeComments_Cons:
  "countTreeComments h (r # rest) =
     (case h r of None \<Rightarrow> None
      | Some n \<Rightarrow> Option.bind (countTreeComments h (children n)) (\<lambda>below.
                  Option.bind (countTreeComments h rest) (\<lambda>count.
                  Some (1 + below + count))))"
  by (subst countTreeComments.simps) simp

lemma traverse_step:
  assumes "(case nodes of [] \<Rightarrow> Some []
            | node # rest \<Rightarrow>
                (case store node of None \<Rightarrow> None
                 | Some n \<Rightarrow> Option.bind (trav store (children n)) (\<lambda>below.
                     Option.bind (trav store rest) (\<lambda>after.
                     Some (CommentWithUser.truncate n # below @ after))))) = Some y"
  shows "(nodes = [] \<and> y = []) \<or>
         (\<exists>r rest n below after. nodes = r # rest \<and> store r = Some n
            \<and> trav store (children n) = Some below \<and> trav store rest = Some after
            \<and> y = CommentWithUser.truncate n # below @ after)"
  using assms by (auto split: list.splits option.splits Option.bind_splits)

lemma traverse_counts_imp:
  assumes t: "traverse h ns = Some xs"
  shows "keysAgree h \<longrightarrow>
         count_list (map comment_id xs) i
           = count_list ns i + sum_list (map (\<lambda>j. count_list (kidsOf h j) i) (map comment_id xs))"
proof (rule traverse.raw_induct
    [where P = "\<lambda>h ns xs. keysAgree h \<longrightarrow> count_list (map comment_id xs) i
           = count_list ns i + sum_list (map (\<lambda>j. count_list (kidsOf h j) i) (map comment_id xs))",
     OF _ t])
  fix trav store nodes y
  assume IH: "\<And>a b c. trav a b = Some c \<Longrightarrow> keysAgree a \<longrightarrow> count_list (map comment_id c) i
           = count_list b i + sum_list (map (\<lambda>j. count_list (kidsOf a j) i) (map comment_id c))"
    and body: "(case nodes of [] \<Rightarrow> Some []
            | node # rest \<Rightarrow>
                (case store node of None \<Rightarrow> None
                 | Some n \<Rightarrow> Option.bind (trav store (children n)) (\<lambda>below.
                     Option.bind (trav store rest) (\<lambda>after.
                     Some (CommentWithUser.truncate n # below @ after))))) = Some y"
  show "keysAgree store \<longrightarrow> count_list (map comment_id y) i
           = count_list nodes i + sum_list (map (\<lambda>j. count_list (kidsOf store j) i) (map comment_id y))"
  proof
    assume keys: "keysAgree store"
    from traverse_step [where trav = trav and store = store and nodes = nodes and y = y, OF body] show "count_list (map comment_id y) i
           = count_list nodes i + sum_list (map (\<lambda>j. count_list (kidsOf store j) i) (map comment_id y))"
    proof (elim disjE conjE exE)
      assume "nodes = []" "y = []"
      then show ?thesis by simp
    next
      fix r rest n below after
      assume n: "store r = Some n" and b: "trav store (children n) = Some below"
        and a: "trav store rest = Some after" and nodes: "nodes = r # rest"
        and y: "y = CommentWithUser.truncate n # below @ after"
      from n keys have id: "comment_id n = r" by (simp add: keysAgree_def)
      from n have k: "kidsOf store r = children n" by (simp add: kidsOf_def)
      from IH [OF b] IH [OF a] keys
      show ?thesis
        by (simp add: nodes y comment_id_truncate id k)
    qed
  qed
qed

lemma traverse_payload_imp:
  assumes t: "traverse h ns = Some xs"
  shows "keysAgree h \<longrightarrow>
         (\<forall>x \<in> set xs. \<exists>n. h (comment_id x) = Some n \<and> x = CommentWithUser.truncate n)"
proof (rule traverse.raw_induct
    [where P = "\<lambda>h ns xs. keysAgree h \<longrightarrow>
         (\<forall>x \<in> set xs. \<exists>n. h (comment_id x) = Some n \<and> x = CommentWithUser.truncate n)",
     OF _ t])
  fix trav store nodes y
  assume IH: "\<And>a b c. trav a b = Some c \<Longrightarrow> keysAgree a \<longrightarrow>
         (\<forall>x \<in> set c. \<exists>n. a (comment_id x) = Some n \<and> x = CommentWithUser.truncate n)"
    and body: "(case nodes of [] \<Rightarrow> Some []
            | node # rest \<Rightarrow>
                (case store node of None \<Rightarrow> None
                 | Some n \<Rightarrow> Option.bind (trav store (children n)) (\<lambda>below.
                     Option.bind (trav store rest) (\<lambda>after.
                     Some (CommentWithUser.truncate n # below @ after))))) = Some y"
  show "keysAgree store \<longrightarrow>
         (\<forall>x \<in> set y. \<exists>n. store (comment_id x) = Some n \<and> x = CommentWithUser.truncate n)"
  proof
    assume keys: "keysAgree store"
    from traverse_step [where trav = trav and store = store and nodes = nodes and y = y, OF body]
    show "\<forall>x \<in> set y. \<exists>n. store (comment_id x) = Some n \<and> x = CommentWithUser.truncate n"
    proof (elim disjE conjE exE)
      assume "nodes = []" "y = []"
      then show ?thesis by simp
    next
      fix r rest n below after
      assume n: "store r = Some n" and b: "trav store (children n) = Some below"
        and a: "trav store rest = Some after" and nodes: "nodes = r # rest"
        and y: "y = CommentWithUser.truncate n # below @ after"
      from n keys have id: "comment_id n = r" by (simp add: keysAgree_def)
      from IH [OF b] IH [OF a] keys n
      show ?thesis
        by (auto simp: y comment_id_truncate id)
    qed
  qed
qed

lemma traverse_count:
  assumes t: "traverse h ns = Some xs"
  shows "countTreeComments h ns = Some (length xs)"
proof (rule traverse.raw_induct
    [where P = "\<lambda>h ns xs. countTreeComments h ns = Some (length xs)", OF _ t])
  fix trav store nodes y
  assume IH: "\<And>a b c. trav a b = Some c \<Longrightarrow> countTreeComments a b = Some (length c)"
    and body: "(case nodes of [] \<Rightarrow> Some []
            | node # rest \<Rightarrow>
                (case store node of None \<Rightarrow> None
                 | Some n \<Rightarrow> Option.bind (trav store (children n)) (\<lambda>below.
                     Option.bind (trav store rest) (\<lambda>after.
                     Some (CommentWithUser.truncate n # below @ after))))) = Some y"
  from traverse_step [where trav = trav and store = store and nodes = nodes and y = y, OF body]
  show "countTreeComments store nodes = Some (length y)"
  proof (elim disjE conjE exE)
    assume "nodes = []" "y = []"
    then show ?thesis by (simp add: countTreeComments_Nil)
  next
    fix r rest n below after
    assume n: "store r = Some n" and b: "trav store (children n) = Some below"
      and a: "trav store rest = Some after" and nodes: "nodes = r # rest"
      and y: "y = CommentWithUser.truncate n # below @ after"
    from IH [OF b] IH [OF a]
    show ?thesis
      by (simp add: nodes y countTreeComments_Cons n)
  qed
qed

lemma traverse_terminates_aux:
  assumes down: "\<And>i n j. h i = Some n \<Longrightarrow> j \<in> set (children n) \<Longrightarrow> h j \<noteq> None \<and> rank i < rank j"
    and bound: "\<And>i. h i \<noteq> None \<Longrightarrow> rank i < (B::nat)"
  shows "(\<forall>i \<in> set ns. h i \<noteq> None \<and> B - rank i \<le> k) \<Longrightarrow> \<exists>xs. traverse h ns = Some xs"
proof (induction k arbitrary: ns)
  case 0
  have "ns = []"
  proof (cases ns)
    case Nil
    then show ?thesis .
  next
    case (Cons r rest)
    with 0 have "h r \<noteq> None" "B - rank r \<le> 0" by auto
    with bound [of r] show ?thesis by simp
  qed
  then show ?case by (simp add: traverse_Nil)
next
  case (Suc k)
  from Suc.prems show ?case
  proof (induction ns)
    case Nil
    show ?case by (simp add: traverse_Nil)
  next
    case (Cons r rest)
    from Cons.prems obtain n where n: "h r = Some n" and r: "B - rank r \<le> Suc k" by auto
    have "\<forall>j \<in> set (children n). h j \<noteq> None \<and> B - rank j \<le> k"
    proof
      fix j assume j: "j \<in> set (children n)"
      from down [OF n j] have "h j \<noteq> None" "rank r < rank j" by auto
      moreover from bound [OF \<open>h j \<noteq> None\<close>] have "rank j < B" .
      ultimately show "h j \<noteq> None \<and> B - rank j \<le> k" using r by arith
    qed
    from Suc.IH [OF this] obtain below where b: "traverse h (children n) = Some below" by blast
    from Cons.IH Cons.prems obtain after where a: "traverse h rest = Some after" by auto
    show ?case by (simp add: traverse_Cons n b a)
  qed
qed

lemma traverse_terminates:
  assumes down: "\<And>i n j. h i = Some n \<Longrightarrow> j \<in> set (children n) \<Longrightarrow> h j \<noteq> None \<and> rank i < rank j"
    and bound: "\<And>i. h i \<noteq> None \<Longrightarrow> rank i < (B::nat)"
    and ns: "\<forall>i \<in> set ns. h i \<noteq> None"
  shows "\<exists>xs. traverse h ns = Some xs"
proof -
  have "\<forall>i \<in> set ns. h i \<noteq> None \<and> B - rank i \<le> B" using ns by simp
  with down bound show ?thesis
    by (rule traverse_terminates_aux [where h = h and rank = rank and B = B and k = B])
qed

subsection \<open>The walk of a built tree\<close>

lemma keysAgree_storeAfter: "keysAgree (storeAfter A Q)"
  unfolding keysAgree_def
proof (intro allI impI)
  fix i n assume "storeAfter A Q i = Some n"
  then obtain m where m: "firstPass A i = Some m" and n: "n = m\<lparr>children := kids A Q i\<rparr>"
    by (auto simp: storeAfter_def)
  from firstPass_Some [OF m] n show "comment_id n = i"
    by (auto simp: treeNode_fields)
qed

lemma storeAfter_None_iff: "storeAfter A Q i = None \<longleftrightarrow> i \<notin> comment_id ` set A"
  by (simp add: storeAfter_def firstPass_None_iff)

lemma storeAfter_children: "storeAfter A Q i = Some n \<Longrightarrow> children n = kids A Q i"
  by (auto simp: storeAfter_def)

lemma storeAfter_distinct:
  assumes "distinct (map comment_id A)" and "c \<in> set A"
  shows "storeAfter A Q (comment_id c) = Some ((treeNode c)\<lparr>children := kids A Q (comment_id c)\<rparr>)"
  by (simp add: storeAfter_def firstPass_distinct [OF assms])

lemma count_list_map_filter:
  assumes "distinct (map f xs)"
  shows "count_list (map f (filter P xs)) i = (if \<exists>c \<in> set xs. f c = i \<and> P c then 1 else 0)"
  using assms by (induction xs) (auto simp: image_iff)

lemma sum_list_indicator:
  "sum_list (map (\<lambda>j. if a = Some j then 1 else 0) X)
     = (case a of None \<Rightarrow> 0 | Some p \<Rightarrow> count_list X p)"
  by (induction X) (auto split: option.splits)

lemma count_kids:
  assumes d: "distinct (map comment_id A)" and c: "c \<in> set A"
  shows "count_list (kids A A j) (comment_id c) = (if attachedTo A c = Some j then 1 else 0)"
proof -
  have "(\<exists>c' \<in> set A. comment_id c' = comment_id c \<and> attachedTo A c' = Some j)
        \<longleftrightarrow> attachedTo A c = Some j"
    using d c by (metis distinct_map inj_onD)
  then show ?thesis
    unfolding kids_def by (simp add: count_list_map_filter [OF d])
qed

lemma count_orphans:
  assumes d: "distinct (map comment_id A)" and c: "c \<in> set A"
  shows "count_list (orphans A A) (comment_id c) = (if attachedTo A c = None then 1 else 0)"
proof -
  have "(\<exists>c' \<in> set A. comment_id c' = comment_id c \<and> attachedTo A c' = None)
        \<longleftrightarrow> attachedTo A c = None"
    using d c by (metis distinct_map inj_onD)
  then show ?thesis
    unfolding orphans_def by (simp add: count_list_map_filter [OF d])
qed

lemma attachedTo_in: "attachedTo A c = Some p \<Longrightarrow> p \<in> comment_id ` set A"
  by (auto simp: attachedTo_def split: option.splits if_splits)

lemma parentsRankLowerD:
  "parentsRankLower rank A \<Longrightarrow> c \<in> set A \<Longrightarrow> attachedTo A c = Some p
   \<Longrightarrow> rank p < rank (comment_id c)"
  by (auto simp: parentsRankLower_def list_all_iff split: option.splits)

lemma built_traverse_terminates:
  assumes r: "parentsRankLower rank A"
  shows "\<exists>xs. traverse (storeAfter A A) (orphans A A) = Some xs"
proof (rule traverse_terminates
    [where rank = rank and B = "Suc (sum_list (map (\<lambda>c. rank (comment_id c)) A))"])
  fix i n j
  assume n: "storeAfter A A i = Some n" and j: "j \<in> set (children n)"
  from j storeAfter_children [OF n] obtain d where d: "d \<in> set A" "attachedTo A d = Some i"
    "j = comment_id d"
    by (auto simp: kids_def)
  from d(1,3) have "storeAfter A A j \<noteq> None" by (simp add: storeAfter_None_iff)
  moreover from parentsRankLowerD [OF r d(1,2)] d(3) have "rank i < rank j" by simp
  ultimately show "storeAfter A A j \<noteq> None \<and> rank i < rank j" ..
next
  fix i assume "storeAfter A A i \<noteq> None"
  then obtain c where c: "c \<in> set A" "i = comment_id c"
    by (auto simp: storeAfter_None_iff)
  then have "rank i \<in> set (map (\<lambda>c. rank (comment_id c)) A)" by auto
  then have "rank i \<le> sum_list (map (\<lambda>c. rank (comment_id c)) A)"
    by (simp add: member_le_sum_list)
  then show "rank i < Suc (sum_list (map (\<lambda>c. rank (comment_id c)) A))" by simp
next
  show "\<forall>i \<in> set (orphans A A). storeAfter A A i \<noteq> None"
    by (auto simp: orphans_def storeAfter_None_iff)
qed

lemma built_traverse_ids:
  assumes d: "distinct (map comment_id A)" and r: "parentsRankLower rank A"
    and t: "traverse (storeAfter A A) (orphans A A) = Some xs"
  shows "mset (map comment_id xs) = mset (map comment_id A)"
proof -
  let ?h = "storeAfter A A" and ?X = "map comment_id xs"
  have keys: "keysAgree ?h" by (rule keysAgree_storeAfter)
  have inA: "\<forall>j \<in> set ?X. j \<in> comment_id ` set A"
  proof
    fix j assume "j \<in> set ?X"
    then obtain x where "x \<in> set xs" "j = comment_id x" by auto
    with traverse_payload_imp [OF t] keys have "?h j \<noteq> None" by auto
    then show "j \<in> comment_id ` set A" by (simp add: storeAfter_None_iff)
  qed
  have kidsOf: "\<forall>j \<in> set ?X. kidsOf ?h j = kids A A j"
  proof
    fix j assume "j \<in> set ?X"
    with inA have "j \<in> comment_id ` set A" by blast
    then have "?h j \<noteq> None" by (simp add: storeAfter_None_iff)
    then obtain n where n: "?h j = Some n" by auto
    with storeAfter_children [OF n] show "kidsOf ?h j = kids A A j" by (simp add: kidsOf_def)
  qed
  have eq: "count_list ?X i = count_list (orphans A A) i
              + sum_list (map (\<lambda>j. count_list (kids A A j) i) ?X)" for i
  proof -
    have "map (\<lambda>j. count_list (kidsOf ?h j) i) ?X = map (\<lambda>j. count_list (kids A A j) i) ?X"
      by (rule map_cong) (use kidsOf in auto)
    moreover from traverse_counts_imp [OF t, of i] keys
    have "count_list ?X i = count_list (orphans A A) i
            + sum_list (map (\<lambda>j. count_list (kidsOf ?h j) i) ?X)" by blast
    ultimately show ?thesis by (simp only:)
  qed
  have one: "count_list ?X (comment_id c) = 1" if "c \<in> set A" for c
    using that
  proof (induction "rank (comment_id c)" arbitrary: c rule: less_induct)
    case less
    have s: "sum_list (map (\<lambda>j. count_list (kids A A j) (comment_id c)) ?X)
             = (case attachedTo A c of None \<Rightarrow> 0 | Some p \<Rightarrow> count_list ?X p)"
      by (simp add: count_kids [OF d less.prems] sum_list_indicator del: map_map)
    show ?case
    proof (cases "attachedTo A c")
      case None
      with eq [of "comment_id c"] s show ?thesis
        by (simp add: count_orphans [OF d less.prems])
    next
      case (Some p)
      from attachedTo_in [OF Some] obtain c' where c': "c' \<in> set A" "p = comment_id c'" by auto
      from parentsRankLowerD [OF r less.prems Some] c'(2)
      have "rank (comment_id c') < rank (comment_id c)" by simp
      from less.hyps [OF this c'(1)] c'(2) have "count_list ?X p = 1" by simp
      with eq [of "comment_id c"] s Some show ?thesis
        by (simp add: count_orphans [OF d less.prems])
    qed
  qed
  show ?thesis
  proof (rule multiset_eqI)
    fix i
    show "count (mset ?X) i = count (mset (map comment_id A)) i"
    proof (cases "i \<in> comment_id ` set A")
      case True
      then obtain c where c: "c \<in> set A" "i = comment_id c" by auto
      from d c have "count_list (map comment_id A) i = 1"
        by (metis (no_types) List.finite_set One_nat_def count_list_0_iff count_mset
            distinct_count_atmost_1 imageI list.set_map)
      with one [OF c(1)] c(2) show ?thesis by (simp only: count_mset)
    next
      case False
      with inA have "i \<notin> set ?X" by blast
      then have "count_list ?X i = 0" by (rule count_list_0_iff [THEN iffD2])
      moreover from False have "i \<notin> set (map comment_id A)" by simp
      then have "count_list (map comment_id A) i = 0" by (rule count_list_0_iff [THEN iffD2])
      ultimately show ?thesis by (simp only: count_mset)
    qed
  qed
qed

lemma built_traverse_mset:
  assumes d: "distinct (map comment_id A)" and r: "parentsRankLower rank A"
    and t: "traverse (storeAfter A A) (orphans A A) = Some xs"
  shows "mset xs = mset A"
proof -
  let ?g = "\<lambda>i. CommentWithUser.truncate (the (storeAfter A A i))"
  have gA: "?g (comment_id c) = c" if "c \<in> set A" for c
    by (simp add: storeAfter_distinct [OF d that] truncate_treeNode_children)
  have gx: "?g (comment_id x) = x" if "x \<in> set xs" for x
    using traverse_payload_imp [OF t] keysAgree_storeAfter [of A A] that by auto
  have "mset xs = mset (map ?g (map comment_id xs))"
    using gx by (simp add: map_idI)
  also have "\<dots> = image_mset ?g (mset (map comment_id xs))" by (simp only: mset_map)
  also have "\<dots> = image_mset ?g (mset (map comment_id A))"
    by (simp only: built_traverse_ids [OF d r t])
  also have "\<dots> = mset (map ?g (map comment_id A))" by (simp only: mset_map)
  also have "\<dots> = mset A" using gA by (simp add: map_idI)
  finally show ?thesis .
qed

subsection \<open>The claims\<close>

text \<open>
  C7 (tree approval invariant and size). Every node that \<^const>\<open>buildCommentTree\<close>
  creates, at any depth or none, has status approved, for every list. The count holds
  for the lists whose approved comments have pairwise distinct ids and parent
  references without a cycle: then \<^const>\<open>countTreeComments\<close> returns, and returns the
  number of approved comments. It fails for two approved comments that name each other
  as parent: each is pushed under the other, none is a root, and the count is 0.
\<close>

theorem buildCommentTree_approved_and_counted:
  "(\<forall>node n. commentMap (buildCommentTree comments) node = Some n
        \<longrightarrow> comment_status n = Approved)
   \<and> (distinct (map comment_id (filterApprovedComments comments))
        \<and> parentsRankLower rank (filterApprovedComments comments)
      \<longrightarrow> countTreeComments (commentMap (buildCommentTree comments))
            (rootComments (buildCommentTree comments))
          = Some (length (filterApprovedComments comments)))"
proof (intro conjI allI impI)
  fix node n
  assume "commentMap (buildCommentTree comments) node = Some n"
  then show "comment_status n = Approved"
    by (simp add: buildCommentTree_eq storeAfter_approved)
next
  let ?A = "filterApprovedComments comments"
  assume "distinct (map comment_id ?A) \<and> parentsRankLower rank ?A"
  then have d: "distinct (map comment_id ?A)" and r: "parentsRankLower rank ?A" by auto
  from built_traverse_terminates [OF r]
  obtain xs where t: "traverse (storeAfter ?A ?A) (orphans ?A ?A) = Some xs" by blast
  have "length xs = size (mset xs)" by simp
  also have "\<dots> = length ?A" by (simp only: built_traverse_mset [OF d r t] size_mset)
  finally have "length xs = length ?A" .
  with traverse_count [OF t]
  show "countTreeComments (commentMap (buildCommentTree comments))
            (rootComments (buildCommentTree comments)) = Some (length ?A)"
    by (simp add: buildCommentTree_eq)
qed

theorem buildCommentTree_approved_and_counted_witness:
  "distinct (map comment_id (filterApprovedComments
      [exampleComment 2 (Some 1) Approved ''reply'', exampleComment 1 None Approved ''first'',
       exampleComment 3 (Some 2) Pending ''held'', exampleComment 4 (Some 3) Approved ''orphan'']))
   \<and> parentsRankLower nat (filterApprovedComments
      [exampleComment 2 (Some 1) Approved ''reply'', exampleComment 1 None Approved ''first'',
       exampleComment 3 (Some 2) Pending ''held'', exampleComment 4 (Some 3) Approved ''orphan''])
   \<and> countTreeComments
       (commentMap (buildCommentTree
          [exampleComment 2 (Some 1) Approved ''reply'', exampleComment 1 None Approved ''first'',
           exampleComment 3 (Some 2) Pending ''held'', exampleComment 4 (Some 3) Approved ''orphan'']))
       (rootComments (buildCommentTree
          [exampleComment 2 (Some 1) Approved ''reply'', exampleComment 1 None Approved ''first'',
           exampleComment 3 (Some 2) Pending ''held'', exampleComment 4 (Some 3) Approved ''orphan'']))
     = Some 3"
proof -
  let ?cs = "[exampleComment 2 (Some 1) Approved ''reply'', exampleComment 1 None Approved ''first'',
       exampleComment 3 (Some 2) Pending ''held'', exampleComment 4 (Some 3) Approved ''orphan'']"
  have d: "distinct (map comment_id (filterApprovedComments ?cs))" by code_simp
  have r: "parentsRankLower nat (filterApprovedComments ?cs)" by code_simp
  have l: "length (filterApprovedComments ?cs) = 3" by code_simp
  from buildCommentTree_approved_and_counted [of ?cs nat] d r l
  show ?thesis by simp
qed

theorem countTreeComments_cycle_counterexample:
  "countTreeComments
     (commentMap (buildCommentTree
        [exampleComment 1 (Some 2) Approved ''first'', exampleComment 2 (Some 1) Approved ''second'']))
     (rootComments (buildCommentTree
        [exampleComment 1 (Some 2) Approved ''first'', exampleComment 2 (Some 1) Approved ''second'']))
     = Some 0
   \<and> length (filterApprovedComments
        [exampleComment 1 (Some 2) Approved ''first'', exampleComment 2 (Some 1) Approved ''second''])
     = 2"
  by code_simp

text \<open>
  C8 (tree round-trip). For the lists whose approved comments have pairwise distinct
  ids and parent references without a cycle, \<^const>\<open>flattenCommentTree\<close> of the built
  tree returns, and returns the approved comments themselves, every field included,
  each exactly once. Two approved comments that name each other as parent are dropped.
\<close>

theorem flattenCommentTree_round_trip:
  assumes "distinct (map comment_id (filterApprovedComments comments))"
    and "parentsRankLower rank (filterApprovedComments comments)"
  shows "\<exists>flat. flattenCommentTree (commentMap (buildCommentTree comments))
                  (rootComments (buildCommentTree comments)) = Some flat
               \<and> mset flat = mset (filterApprovedComments comments)"
proof -
  let ?A = "filterApprovedComments comments"
  from built_traverse_terminates [OF assms(2)]
  obtain xs where t: "traverse (storeAfter ?A ?A) (orphans ?A ?A) = Some xs" by blast
  from built_traverse_mset [OF assms t] t show ?thesis
    by (simp add: flattenCommentTree_def buildCommentTree_eq)
qed

theorem flattenCommentTree_round_trip_witness:
  "distinct (map comment_id (filterApprovedComments
      [exampleComment 2 (Some 1) Approved ''reply'', exampleComment 1 None Approved ''first'',
       exampleComment 3 (Some 2) Rejected ''spam'', exampleComment 4 (Some 3) Approved ''orphan'']))
   \<and> parentsRankLower nat (filterApprovedComments
      [exampleComment 2 (Some 1) Approved ''reply'', exampleComment 1 None Approved ''first'',
       exampleComment 3 (Some 2) Rejected ''spam'', exampleComment 4 (Some 3) Approved ''orphan''])
   \<and> (\<exists>flat. flattenCommentTree
         (commentMap (buildCommentTree
            [exampleComment 2 (Some 1) Approved ''reply'', exampleComment 1 None Approved ''first'',
             exampleComment 3 (Some 2) Rejected ''spam'', exampleComment 4 (Some 3) Approved ''orphan'']))
         (rootComments (buildCommentTree
            [exampleComment 2 (Some 1) Approved ''reply'', exampleComment 1 None Approved ''first'',
             exampleComment 3 (Some 2) Rejected ''spam'', exampleComment 4 (Some 3) Approved ''orphan'']))
         = Some flat
       \<and> mset flat = mset (filterApprovedComments
            [exampleComment 2 (Some 1) Approved ''reply'', exampleComment 1 None Approved ''first'',
             exampleComment 3 (Some 2) Rejected ''spam'', exampleComment 4 (Some 3) Approved ''orphan'']))"
proof -
  let ?cs = "[exampleComment 2 (Some 1) Approved ''reply'', exampleComment 1 None Approved ''first'',
       exampleComment 3 (Some 2) Rejected ''spam'', exampleComment 4 (Some 3) Approved ''orphan'']"
  have d: "distinct (map comment_id (filterApprovedComments ?cs))" by code_simp
  have r: "parentsRankLower nat (filterApprovedComments ?cs)" by code_simp
  from flattenCommentTree_round_trip [OF d r] d r
  show ?thesis by blast
qed

theorem flattenCommentTree_cycle_counterexample:
  "flattenCommentTree
     (commentMap (buildCommentTree
        [exampleComment 1 None Approved ''root'', exampleComment 2 (Some 3) Approved ''second'',
         exampleComment 3 (Some 2) Approved ''third'']))
     (rootComments (buildCommentTree
        [exampleComment 1 None Approved ''root'', exampleComment 2 (Some 3) Approved ''second'',
         exampleComment 3 (Some 2) Approved ''third'']))
     = Some [exampleComment 1 None Approved ''root'']
   \<and> filterApprovedComments
        [exampleComment 1 None Approved ''root'', exampleComment 2 (Some 3) Approved ''second'',
         exampleComment 3 (Some 2) Approved ''third'']
     = [exampleComment 1 None Approved ''root'', exampleComment 2 (Some 3) Approved ''second'',
         exampleComment 3 (Some 2) Approved ''third'']"
  by code_simp

subsection \<open>Duplicate ids\<close>

text \<open>
  Distinct ids are needed as well. A \<^verbatim>\<open>Map\<close> keeps one node for an id, the last one
  set, and every comment with that id is represented by it: the round trip loses the
  first of two roots with the same id and returns the second twice.
\<close>

lemma flattenCommentTree_duplicate_ids:
  "flattenCommentTree
     (commentMap (buildCommentTree
        [exampleComment 1 None Approved ''first'', exampleComment 1 None Approved ''second'']))
     (rootComments (buildCommentTree
        [exampleComment 1 None Approved ''first'', exampleComment 1 None Approved ''second'']))
   = Some [exampleComment 1 None Approved ''second'', exampleComment 1 None Approved ''second'']"
  by code_simp

text \<open>
  A later comment with the id of an earlier one can even close a cycle that the roots
  reach, and then the walks do not return.
\<close>

lemma countTreeComments_cycle_None:
  assumes cyc: "\<And>r. r \<in> C \<Longrightarrow> \<exists>n. h r = Some n \<and> set (children n) \<inter> C \<noteq> {}"
    and ns: "set ns \<inter> C \<noteq> {}"
  shows "countTreeComments h ns = None"
proof (rule ccontr)
  assume "countTreeComments h ns \<noteq> None"
  then obtain y where y: "countTreeComments h ns = Some y" by auto
  have "h = h \<longrightarrow> set ns \<inter> C = {}"
  proof (rule countTreeComments.raw_induct
      [where P = "\<lambda>store nodes y. store = h \<longrightarrow> set nodes \<inter> C = {}", OF _ y])
    fix cnt store nodes k
    assume IH: "\<And>a b c. cnt a b = Some c \<Longrightarrow> a = h \<longrightarrow> set b \<inter> C = {}"
      and body: "(case nodes of [] \<Rightarrow> Some 0
            | node # rest \<Rightarrow>
                (case store node of None \<Rightarrow> None
                 | Some n \<Rightarrow> Option.bind (cnt store (children n)) (\<lambda>below.
                     Option.bind (cnt store rest) (\<lambda>count. Some (1 + below + count))))) = Some k"
    show "store = h \<longrightarrow> set nodes \<inter> C = {}"
    proof
      assume s: "store = h"
      show "set nodes \<inter> C = {}"
      proof (cases nodes)
        case Nil
        then show ?thesis by simp
      next
        case (Cons r rest)
        with body obtain n below after where n: "store r = Some n"
          and b: "cnt store (children n) = Some below" and a: "cnt store rest = Some after"
          by (auto split: option.splits Option.bind_splits)
        from IH [OF b] s have kids: "set (children n) \<inter> C = {}" by simp
        from IH [OF a] s have rest: "set rest \<inter> C = {}" by simp
        have "r \<notin> C"
        proof
          assume "r \<in> C"
          from cyc [OF this] n s kids show False by auto
        qed
        with rest Cons show ?thesis by simp
      qed
    qed
  qed
  with ns show False by simp
qed

lemma countTreeComments_duplicate_ids_diverges:
  "countTreeComments
     (commentMap (buildCommentTree
        [exampleComment 1 None Approved ''first'', exampleComment 2 (Some 1) Approved ''reply'',
         exampleComment 1 (Some 2) Approved ''again'']))
     (rootComments (buildCommentTree
        [exampleComment 1 None Approved ''first'', exampleComment 2 (Some 1) Approved ''reply'',
         exampleComment 1 (Some 2) Approved ''again''])) = None"
proof -
  let ?t = "buildCommentTree
        [exampleComment 1 None Approved ''first'', exampleComment 2 (Some 1) Approved ''reply'',
         exampleComment 1 (Some 2) Approved ''again'']"
  have r: "rootComments ?t = [1]" by code_simp
  have c1: "map_option children (commentMap ?t 1) = Some [2]" by code_simp
  have c2: "map_option children (commentMap ?t 2) = Some [1]" by code_simp
  show ?thesis
  proof (rule countTreeComments_cycle_None [where C = "{1, 2}"])
    fix x :: int assume "x \<in> {1, 2}"
    with c1 c2 show "\<exists>n. commentMap ?t x = Some n \<and> set (children n) \<inter> {1, 2} \<noteq> {}"
      by auto
  next
    show "set (rootComments ?t) \<inter> {1, 2} \<noteq> {}" by (simp add: r)
  qed
qed

end
